theory Spec2Isabelle
  imports Main "HOL-Library.AList"
begin

section \<open>Data model of scrape.ts\<close>

text \<open>
  The persisted schema: a \<open>ScorePoint\<close> is a timestamp (an ISO string) with a number of
  points, a \<open>TextEntry\<close> is a name, a url and the list of its score points, oldest first.
  Strings are lists of 8-bit characters; \<open>points\<close> is an \<open>int\<close>, since the file that is
  loaded may hold any integer.
\<close>

record ScorePoint =
  timestamp :: string
  points :: int

record TextEntry =
  name :: string
  url :: string
  score :: "ScorePoint list"

type_synonym Schema = "TextEntry list"

text \<open>
  An element of \<open>parsedEntries\<close>. The extraction loop builds it as
  \<open>{name, url: href, score: [{timestamp, points}]}\<close>, always with exactly one score point,
  and the merge loop reads only \<open>p.name\<close>, \<open>p.url\<close>, \<open>p.score[0].timestamp\<close> and
  \<open>p.score[0].points\<close>. It is kept as these four values; \<open>asTextEntry\<close> is the object
  itself, which is what \<open>existingMap.set(key, p)\<close> stores.
\<close>

record parsedEntry =
  p_name :: string
  p_url :: string
  p_timestamp :: string
  p_points :: int

definition asTextEntry :: "parsedEntry \<Rightarrow> TextEntry" where
  "asTextEntry p =
     \<lparr>name = p_name p, url = p_url p,
      score = [\<lparr>timestamp = p_timestamp p, points = p_points p\<rparr>]\<rparr>"

section \<open>The merge of main\<close>

text \<open>
  \<open>u || n\<close> on two strings: the first one unless it is the empty string.
\<close>

definition orElse :: "string \<Rightarrow> string \<Rightarrow> string" where
  "orElse u n = (if u \<noteq> [] then u else n)"

definition entryKey :: "TextEntry \<Rightarrow> string" where
  "entryKey e = orElse (url e) (name e)"

definition parsedKey :: "parsedEntry \<Rightarrow> string" where
  "parsedKey p = orElse (p_url p) (p_name p)"

text \<open>
  \<open>existingMap\<close> is a JavaScript \<open>Map\<close>: it remembers the order in which keys were first
  set, and setting a key that is present replaces its value where it stands. That is an
  association list with \<open>AList.update\<close>; \<open>get\<close> is \<open>map_of\<close>, \<open>values()\<close> is
  \<open>map snd\<close>.
\<close>

type_synonym entryMap = "(string \<times> TextEntry) list"

text \<open>\<open>for (const e of existing) existingMap.set(e.url || e.name, e)\<close>\<close>

definition indexExisting :: "Schema \<Rightarrow> entryMap" where
  "indexExisting existing = foldl (\<lambda>m e. AList.update (entryKey e) e m) [] existing"

text \<open>
  The last score point of an entry, \<open>null\<close> when the score is empty.
\<close>

definition lastScore :: "TextEntry \<Rightarrow> ScorePoint option" where
  "lastScore e =
     (if length (score e) > 0 then Some (score e ! (length (score e) - 1)) else None)"

text \<open>
  One round of the loop over \<open>parsedEntries\<close>. The entries of the map are distinct
  objects, each stored under one key, so that pushing a score point onto
  \<open>existingEntry.score\<close> is an update of the map at \<open>key\<close>. The log lines are left out:
  they do not change the map.
\<close>

definition mergeStep :: "entryMap \<Rightarrow> parsedEntry \<Rightarrow> entryMap" where
  "mergeStep existingMap p =
     (let key = parsedKey p in
      case map_of existingMap key of
        None \<Rightarrow> AList.update key (asTextEntry p) existingMap
      | Some existingEntry \<Rightarrow>
          (let currentPoints = p_points p in
           case lastScore existingEntry of
             None \<Rightarrow>
               AList.update key
                 (existingEntry\<lparr>score := score existingEntry @
                    [\<lparr>timestamp = p_timestamp p, points = currentPoints\<rparr>]\<rparr>) existingMap
           | Some lst \<Rightarrow>
               if points lst \<noteq> currentPoints
               then AList.update key
                 (existingEntry\<lparr>score := score existingEntry @
                    [\<lparr>timestamp = p_timestamp p, points = currentPoints\<rparr>]\<rparr>) existingMap
               else existingMap))"

definition mergeLoop :: "entryMap \<Rightarrow> parsedEntry list \<Rightarrow> entryMap" where
  "mergeLoop existingMap parsedEntries = foldl mergeStep existingMap parsedEntries"

text \<open>
  \<open>merged\<close>: the values of the map, sorted by \<open>a.name.localeCompare(b.name, undefined,
  {sensitivity: "base"})\<close>. The collation of the runtime's locale is not part of the
  program; it is the parameter \<open>collate\<close>, a key into a linear order that the comparison
  follows. \<open>Array.prototype.sort\<close> is stable, as \<open>sort_key\<close> is.
\<close>

definition merged :: "(string \<Rightarrow> 'o::linorder) \<Rightarrow> entryMap \<Rightarrow> Schema" where
  "merged collate existingMap = sort_key (\<lambda>e. collate (name e)) (map snd existingMap)"

text \<open>
  From the loaded history and the parsed entries to the schema that is saved.
\<close>

definition reconcile :: "(string \<Rightarrow> 'o::linorder) \<Rightarrow> Schema \<Rightarrow> parsedEntry list \<Rightarrow> Schema" where
  "reconcile collate existing parsedEntries =
     merged collate (mergeLoop (indexExisting existing) parsedEntries)"

text \<open>The score point that a parsed entry contributes.\<close>

definition pointOf :: "parsedEntry \<Rightarrow> ScorePoint" where
  "pointOf p = \<lparr>timestamp = p_timestamp p, points = p_points p\<rparr>"

section \<open>Extraction\<close>

text \<open>
  Characters are code units below 256. \<open>isDigit\<close> is the class \<open>\d\<close>; \<open>isSpace\<close> is the
  class \<open>\s\<close> in that range (TAB, LF, VT, FF, CR, SPACE, NBSP), which is also what
  \<open>trim\<close> strips. \<open>canonicalize\<close> is the case folding of a regular expression with the
  \<open>i\<close> flag on the letters of the patterns used here: it maps a to z onto A to Z, and no
  other character onto one of them.
\<close>

definition isDigit :: "char \<Rightarrow> bool" where
  "isDigit c = (c \<in> set ''0123456789'')"

definition isSpace :: "char \<Rightarrow> bool" where
  "isSpace c = (c \<in> set [CHR 0x09, CHR 0x0A, CHR 0x0B, CHR 0x0C, CHR 0x0D, CHR 0x20, CHR 0xA0])"

definition canonicalize :: "char \<Rightarrow> char" where
  "canonicalize c =
     (case map_of (zip ''abcdefghijklmnopqrstuvwxyz'' ''ABCDEFGHIJKLMNOPQRSTUVWXYZ'') c of
        Some u \<Rightarrow> u
      | None \<Rightarrow> c)"

definition trim :: "string \<Rightarrow> string" where
  "trim s = rev (dropWhile isSpace (rev (dropWhile isSpace s)))"

text \<open>
  \<open>parseInt(m[1], 10)\<close>, which the program applies to a capture of \<open>\d{1,5}\<close> only: the
  decimal value of a string of digits.
\<close>

definition digitVal :: "char \<Rightarrow> int" where
  "digitVal c = int (of_char c) - 48"

definition parseInt :: "string \<Rightarrow> int" where
  "parseInt ds = foldl (\<lambda>a c. 10 * a + digitVal c) 0 ds"

text \<open>
  The matcher of a regular expression, as a backtracking engine runs it.
  \<open>digitsThen n cont s\<close> is the greedy group \<open>(\d{1,n})\<close> at the head of \<open>s\<close> followed by
  the rest of the pattern \<open>cont\<close>: the longest run is tried first, then shorter ones.
  \<open>spacesThen cont s\<close> is \<open>\s*\<close> followed by \<open>cont\<close>. \<open>imatch pat s\<close> is the literal
  \<open>pat\<close> at the head of \<open>s\<close> under the \<open>i\<close> flag. \<open>searchFirst at s\<close> tries the
  pattern at every position from the left and keeps the first match.
\<close>

fun digitsThen :: "nat \<Rightarrow> (string \<Rightarrow> bool) \<Rightarrow> string \<Rightarrow> string option" where
  "digitsThen 0 cont s = None"
| "digitsThen (Suc n) cont s =
     (if Suc n \<le> length s \<and> list_all isDigit (take (Suc n) s) \<and> cont (drop (Suc n) s)
      then Some (take (Suc n) s)
      else digitsThen n cont s)"

fun spacesThen :: "(string \<Rightarrow> bool) \<Rightarrow> string \<Rightarrow> bool" where
  "spacesThen cont [] = cont []"
| "spacesThen cont (c # cs) = ((isSpace c \<and> spacesThen cont cs) \<or> cont (c # cs))"

definition imatch :: "string \<Rightarrow> string \<Rightarrow> bool" where
  "imatch pat s =
     (length pat \<le> length s \<and> map canonicalize (take (length pat) s) = map canonicalize pat)"

fun searchFirst :: "(string \<Rightarrow> 'a option) \<Rightarrow> string \<Rightarrow> 'a option" where
  "searchFirst at [] = at []"
| "searchFirst at (c # cs) =
     (case at (c # cs) of Some r \<Rightarrow> Some r | None \<Rightarrow> searchFirst at cs)"

text \<open>\<open>/(\d{1,5})/\<close>\<close>

definition matchDigits :: "string \<Rightarrow> string option" where
  "matchDigits s = searchFirst (digitsThen 5 (\<lambda>_. True)) s"

text \<open>\<open>/pt-(\d{1,5})/\<close>\<close>

definition ptAt :: "string \<Rightarrow> string option" where
  "ptAt t = (if take 3 t = ''pt-'' then digitsThen 5 (\<lambda>_. True) (drop 3 t) else None)"

definition matchPt :: "string \<Rightarrow> string option" where
  "matchPt s = searchFirst ptAt s"

text \<open>\<open>/(?:\(|\s)(\d{1,5})(?:\s*Punkte|\s*punkt|<\/span>|\))/i\<close>\<close>

definition markupTail :: "string \<Rightarrow> bool" where
  "markupTail r =
     (spacesThen (imatch ''Punkte'') r \<or> spacesThen (imatch ''punkt'') r \<or>
      imatch ''</span>'' r \<or> take 1 r = '')'')"

definition markupAt :: "string \<Rightarrow> string option" where
  "markupAt t =
     (case t of
        [] \<Rightarrow> None
      | c # r \<Rightarrow> if c = CHR ''('' \<or> isSpace c then digitsThen 5 markupTail r else None)"

definition matchMarkup :: "string \<Rightarrow> string option" where
  "matchMarkup s = searchFirst markupAt s"

text \<open>
  What the program asks of an item node \<open>$li\<close>: the text of its first \<open>div.punkte\<close>
  (empty when there is none), its class attribute and that of its first \<open>div\<close> (either
  may be undefined), its inner markup (\<open>null\<close> for an empty selection), and its first
  link, with its text and its \<open>href\<close> attribute. The parsing library is outside the
  program; an item node is the record of these answers.
\<close>

record anchorNode =
  a_text :: string
  a_href :: "string option"

record liNode =
  punkteText :: string
  liClass :: "string option"
  divClass :: "string option"
  liHtml :: "string option"
  anchor :: "anchorNode option"

text \<open>\<open>x || ""\<close> on a string that may be undefined.\<close>

definition orEmpty :: "string option \<Rightarrow> string" where
  "orEmpty x = (case x of None \<Rightarrow> [] | Some s \<Rightarrow> s)"

definition parsePointsFromLi :: "liNode \<Rightarrow> int" where
  "parsePointsFromLi li =
     (let divText = trim (punkteText li) in
      case (if divText \<noteq> [] then matchDigits divText else None) of
        Some m \<Rightarrow> parseInt m
      | None \<Rightarrow>
          (let classList = orEmpty (liClass li) @ '' '' @ orEmpty (divClass li) in
           case matchPt classList of
             Some m2 \<Rightarrow> parseInt m2
           | None \<Rightarrow>
               (let liHtmlS = orEmpty (liHtml li) in
                case matchMarkup liHtmlS of
                  Some m3 \<Rightarrow> parseInt m3
                | None \<Rightarrow> 0)))"

text \<open>\<open>str.replace(/\s+/g, " ").trim()\<close>\<close>

function collapseSpaces :: "string \<Rightarrow> string" where
  "collapseSpaces [] = []"
| "collapseSpaces (c # cs) =
     (if isSpace c then CHR '' '' # collapseSpaces (dropWhile isSpace cs)
      else c # collapseSpaces cs)"
  by pat_completeness auto
termination
  by (relation "measure length") (simp_all add: le_imp_less_Suc length_dropWhile_le)

definition normalizeName :: "string \<Rightarrow> string" where
  "normalizeName str = trim (collapseSpaces str)"

text \<open>
  The callback of \<open>itemsFallback.each\<close>, item after item. \<open>resolve\<close> is
  \<open>new URL(href, base).href\<close>, \<open>None\<close> where it throws. Every entry that is pushed reads
  the clock with its own \<open>new Date()\<close>: \<open>now k\<close> is the reading of the \<open>k\<close>-th such
  call of the run, and the counter is passed along. An item with no link is skipped and
  reads nothing.
\<close>

fun eachItem ::
  "(string \<Rightarrow> string option) \<Rightarrow> (nat \<Rightarrow> string) \<Rightarrow> nat \<Rightarrow> liNode list \<Rightarrow> parsedEntry list" where
  "eachItem resolve now k [] = []"
| "eachItem resolve now k (li # rest) =
     (case anchor li of
        None \<Rightarrow> eachItem resolve now k rest
      | Some a \<Rightarrow>
          (let nm = normalizeName (a_text a);
               href0 = orEmpty (a_href a);
               href = (case resolve href0 of Some h \<Rightarrow> h | None \<Rightarrow> href0);
               pts = parsePointsFromLi li
           in \<lparr>p_name = nm, p_url = href, p_timestamp = now k, p_points = pts\<rparr>
              # eachItem resolve now (Suc k) rest))"

text \<open>
  \<open>items.length ? items : $("li[data-cnt]")\<close>, then the loop: \<open>parsedEntries\<close>.
\<close>

definition parsedEntriesOf ::
  "(string \<Rightarrow> string option) \<Rightarrow> (nat \<Rightarrow> string) \<Rightarrow> liNode list \<Rightarrow> liNode list \<Rightarrow> parsedEntry list" where
  "parsedEntriesOf resolve now items fallbackItems =
     eachItem resolve now 0 (if items \<noteq> [] then items else fallbackItems)"

section \<open>The three tiers, stated on the strings\<close>

text \<open>
  What each tier of \<open>parsePointsFromLi\<close> yields, said directly on the strings and with no
  matcher: no search loop over a pattern, no backtracking, no trimming, and with a decimal
  value, a case folding and a reading of missing attributes of their own, so that nothing
  here is shared with the model of the code but the two character classes.

  \<open>decimal\<close>: the value of a string of digits, each digit looked up in a list of the
  ten digits with their values.

  \<open>labelRun\<close>: the first run of digits of the score label, cut after five digits.

  \<open>ptSuffix\<close>: the digits, cut after five, that follow the leftmost occurrence of the three
  characters \<open>pt-\<close> that has a digit right after it. The occurrence may stand anywhere in
  the attribute, also in the middle of a longer class name.

  \<open>followsNumber\<close>: what may stand right after the number in the markup: the letters
  \<open>punkt\<close> in either case after any number of spaces, the tag \<open></span>\<close> in either
  case, or \<open>)\<close>. No other closing tag is among them.

  \<open>markupNumber\<close>: the leftmost place of the markup where \<open>(\<close> or a space is followed by a
  whole run of one to five digits and then by one of these; the run is the number.

  \<open>tieredPoints\<close>: the first of the tiers that yields digits, in the order label, class
  of the item, class of its first \<open>div\<close>, markup; 0 when none does.
\<close>

definition digitOf :: "char \<Rightarrow> int" where
  "digitOf c =
     (case map_of (zip ''0123456789'' [0, 1, 2, 3, 4, 5, 6, 7, 8, 9]) c of
        Some d \<Rightarrow> d
      | None \<Rightarrow> 0)"

fun decimal :: "string \<Rightarrow> int" where
  "decimal [] = 0"
| "decimal (c # cs) = digitOf c * 10 ^ length cs + decimal cs"

definition labelRun :: "string \<Rightarrow> string option" where
  "labelRun s =
     (let ds = take 5 (takeWhile isDigit (dropWhile (\<lambda>c. \<not> isDigit c) s))
      in if ds = [] then None else Some ds)"

fun ptSuffix :: "string \<Rightarrow> string option" where
  "ptSuffix [] = None"
| "ptSuffix (c # cs) =
     (let ds = takeWhile isDigit (drop 3 (c # cs))
      in if take 3 (c # cs) = ''pt-'' \<and> ds \<noteq> [] then Some (take 5 ds) else ptSuffix cs)"

text \<open>
  \<open>eitherCase lower upper t\<close>: \<open>t\<close> starts with the characters of \<open>lower\<close>, each of
  them as it is or as the character of \<open>upper\<close> at its place.
\<close>

definition eitherCase :: "string \<Rightarrow> string \<Rightarrow> string \<Rightarrow> bool" where
  "eitherCase lower upper t =
     list_all2 (\<lambda>c lu. c = fst lu \<or> c = snd lu) (take (length lower) t) (zip lower upper)"

definition followsNumber :: "string \<Rightarrow> bool" where
  "followsNumber r =
     (eitherCase ''punkt'' ''PUNKT'' (dropWhile isSpace r) \<or>
      eitherCase ''</span>'' ''</SPAN>'' r \<or> take 1 r = '')'')"

fun markupNumber :: "string \<Rightarrow> string option" where
  "markupNumber [] = None"
| "markupNumber (c # r) =
     (let ds = takeWhile isDigit r
      in if (c = CHR ''('' \<or> isSpace c) \<and> ds \<noteq> [] \<and> length ds \<le> 5 \<and>
            followsNumber (drop (length ds) r)
         then Some ds else markupNumber r)"

definition tieredPoints :: "liNode \<Rightarrow> int" where
  "tieredPoints li =
     (case labelRun (punkteText li) of
        Some ds \<Rightarrow> decimal ds
      | None \<Rightarrow>
          (case (case ptSuffix (case liClass li of None \<Rightarrow> [] | Some s \<Rightarrow> s) of
                   Some ds \<Rightarrow> Some ds
                 | None \<Rightarrow> ptSuffix (case divClass li of None \<Rightarrow> [] | Some s \<Rightarrow> s)) of
             Some ds \<Rightarrow> decimal ds
           | None \<Rightarrow>
               (case markupNumber (case liHtml li of None \<Rightarrow> [] | Some s \<Rightarrow> s) of
                  Some ds \<Rightarrow> decimal ds
                | None \<Rightarrow> 0)))"

section \<open>Notions of the statements\<close>

text \<open>
  The invariant of the working map: no key stands twice, and every entry is stored under
  its own identity key.
\<close>

definition keyed :: "entryMap \<Rightarrow> bool" where
  "keyed m = (distinct (map fst m) \<and> list_all (\<lambda>ke. entryKey (snd ke) = fst ke) m)"

text \<open>
  \<open>extends e e'\<close>: \<open>e'\<close> is \<open>e\<close> with score points appended, and nothing else changed.
\<close>

definition extends :: "TextEntry \<Rightarrow> TextEntry \<Rightarrow> bool" where
  "extends e e' =
     (name e' = name e \<and> url e' = url e \<and> take (length (score e)) (score e') = score e)"

section \<open>One round of the merge loop\<close>

lemma lastScore_eq: "lastScore e = (if score e = [] then None else Some (last (score e)))"
  by (simp add: lastScore_def last_conv_nth)

lemma mergeStep_new:
  "map_of m (parsedKey p) = None \<Longrightarrow> mergeStep m p = AList.update (parsedKey p) (asTextEntry p) m"
  by (simp add: mergeStep_def)

lemma mergeStep_present:
  "map_of m (parsedKey p) = Some e \<Longrightarrow>
   mergeStep m p =
     (if score e = [] \<or> points (last (score e)) \<noteq> p_points p
      then AList.update (parsedKey p) (e\<lparr>score := score e @ [pointOf p]\<rparr>) m
      else m)"
  by (simp add: mergeStep_def lastScore_eq pointOf_def)

lemma entryKey_asTextEntry: "entryKey (asTextEntry p) = parsedKey p"
  by (simp add: entryKey_def asTextEntry_def parsedKey_def)

lemma entryKey_score_update: "entryKey (e\<lparr>score := s\<rparr>) = entryKey e"
  by (simp add: entryKey_def)

lemma list_all_update:
  "list_all P m \<Longrightarrow> P (k, v) \<Longrightarrow> list_all P (AList.update k v m)"
  by (induction m) auto

lemma keyed_update: "keyed m \<Longrightarrow> entryKey e = k \<Longrightarrow> keyed (AList.update k e m)"
  by (simp add: keyed_def distinct_update list_all_update)

lemma keyed_lookup: "keyed m \<Longrightarrow> map_of m k = Some e \<Longrightarrow> entryKey e = k"
  by (auto simp: keyed_def list_all_iff dest!: map_of_SomeD)

lemma keyed_Nil: "keyed []" by (simp add: keyed_def)

lemma keyed_foldl_index:
  "keyed m \<Longrightarrow> keyed (foldl (\<lambda>m e. AList.update (entryKey e) e m) m es)"
  by (induction es arbitrary: m) (auto simp: keyed_update)

lemma keyed_indexExisting: "keyed (indexExisting es)"
  by (simp add: indexExisting_def keyed_foldl_index keyed_Nil)

lemma keyed_mergeStep: "keyed m \<Longrightarrow> keyed (mergeStep m p)"
proof (cases "map_of m (parsedKey p)")
  case None
  assume "keyed m"
  then show ?thesis using None
    by (simp add: mergeStep_new keyed_update entryKey_asTextEntry)
next
  case (Some e)
  assume k: "keyed m"
  then have "entryKey e = parsedKey p" using Some by (rule keyed_lookup)
  then show ?thesis using Some k
    by (simp add: mergeStep_present keyed_update entryKey_score_update)
qed

lemma keyed_mergeLoop: "keyed m \<Longrightarrow> keyed (mergeLoop m ps)"
  unfolding mergeLoop_def by (induction ps arbitrary: m) (auto simp: keyed_mergeStep)

lemma keys_mergeStep:
  "map fst (mergeStep m p) =
     (if parsedKey p \<in> set (map fst m) then map fst m else map fst m @ [parsedKey p])"
proof (cases "map_of m (parsedKey p)")
  case None
  then show ?thesis by (simp add: mergeStep_new update_keys map_of_eq_None_iff)
next
  case (Some e)
  then have "parsedKey p \<in> fst ` set m"
    by (metis domI dom_map_of_conv_image_fst)
  then show ?thesis using Some by (simp add: mergeStep_present update_keys)
qed

lemma mergeStep_other:
  "k \<noteq> parsedKey p \<Longrightarrow> map_of (mergeStep m p) k = map_of m k"
  by (cases "map_of m (parsedKey p)") (auto simp: mergeStep_new mergeStep_present update_conv')

lemma mergeStep_at_key:
  "map_of (mergeStep m p) (parsedKey p) =
     Some (case map_of m (parsedKey p) of
             None \<Rightarrow> asTextEntry p
           | Some e \<Rightarrow> if score e = [] \<or> points (last (score e)) \<noteq> p_points p
                       then e\<lparr>score := score e @ [pointOf p]\<rparr> else e)"
  by (cases "map_of m (parsedKey p)") (auto simp: mergeStep_new mergeStep_present update_conv')


lemma extends_refl: "extends e e"
  by (simp add: extends_def)

lemma extends_trans: "extends a b \<Longrightarrow> extends b c \<Longrightarrow> extends a c"
  unfolding extends_def
  by (metis append_eq_conv_conj append_take_drop_id append.assoc)

lemma extends_append: "extends e (e\<lparr>score := score e @ xs\<rparr>)"
  by (simp add: extends_def)

lemma extends_key: "extends e e' \<Longrightarrow> entryKey e' = entryKey e"
  by (simp add: extends_def entryKey_def)

lemma extends_length: "extends e e' \<Longrightarrow> length (score e) \<le> length (score e')"
  unfolding extends_def by (metis length_take min.cobounded1 min.commute)

lemma extends_nonempty: "extends e e' \<Longrightarrow> score e \<noteq> [] \<Longrightarrow> score e' \<noteq> []"
  by (auto simp: extends_def)

lemma mergeStep_extends:
  assumes "map_of m k = Some e"
  shows "\<exists>e'. map_of (mergeStep m p) k = Some e' \<and> extends e e'"
proof (cases "k = parsedKey p")
  case True
  then show ?thesis using assms
    by (auto simp: mergeStep_at_key extends_refl extends_append)
next
  case False
  then show ?thesis using assms by (simp add: mergeStep_other extends_refl)
qed

lemma mergeLoop_Nil: "mergeLoop m [] = m"
  by (simp add: mergeLoop_def)

lemma mergeLoop_Cons: "mergeLoop m (p # ps) = mergeLoop (mergeStep m p) ps"
  by (simp add: mergeLoop_def)

lemma mergeLoop_snoc: "mergeLoop m (ps @ [p]) = mergeStep (mergeLoop m ps) p"
  by (simp add: mergeLoop_def)

lemma mergeLoop_append: "mergeLoop m (ps @ qs) = mergeLoop (mergeLoop m ps) qs"
  by (simp add: mergeLoop_def)

lemma mergeLoop_extends:
  "map_of m k = Some e \<Longrightarrow> \<exists>e'. map_of (mergeLoop m ps) k = Some e' \<and> extends e e'"
proof (induction ps arbitrary: m e)
  case Nil
  then show ?case by (auto simp: mergeLoop_Nil extends_refl)
next
  case (Cons p ps)
  from mergeStep_extends [OF Cons.prems, of p]
  obtain e1 where e1: "map_of (mergeStep m p) k = Some e1" "extends e e1" by blast
  from Cons.IH [OF e1(1)] obtain e' where
    "map_of (mergeLoop (mergeStep m p) ps) k = Some e'" "extends e1 e'" by blast
  with e1(2) show ?case by (auto simp: mergeLoop_Cons intro: extends_trans)
qed

lemma mergeLoop_other:
  "k \<notin> parsedKey ` set ps \<Longrightarrow> map_of (mergeLoop m ps) k = map_of m k"
  by (induction ps arbitrary: m) (auto simp: mergeLoop_Nil mergeLoop_Cons mergeStep_other)

lemma keys_mergeLoop:
  "fst ` set (mergeLoop m ps) = fst ` set m \<union> parsedKey ` set ps"
proof (induction ps arbitrary: m)
  case Nil
  then show ?case by (simp add: mergeLoop_Nil)
next
  case (Cons p ps)
  have "set (map fst (mergeStep m p)) = insert (parsedKey p) (set (map fst m))"
    unfolding keys_mergeStep by auto
  then have "fst ` set (mergeStep m p) = insert (parsedKey p) (fst ` set m)" by simp
  with Cons.IH [of "mergeStep m p"] show ?case by (auto simp: mergeLoop_Cons)
qed

lemma length_mergeStep: "length m \<le> length (mergeStep m p)"
proof -
  have "length (map fst m) \<le> length (map fst (mergeStep m p))"
    by (simp add: keys_mergeStep)
  then show ?thesis by simp
qed

lemma length_mergeLoop: "length m \<le> length (mergeLoop m ps)"
proof (induction ps arbitrary: m)
  case Nil
  then show ?case by (simp add: mergeLoop_Nil)
next
  case (Cons p ps)
  show ?case using length_mergeStep [of m p] Cons.IH [of "mergeStep m p"]
    by (simp add: mergeLoop_Cons)
qed

lemma update_fresh: "k \<notin> fst ` set m \<Longrightarrow> AList.update k v m = m @ [(k, v)]"
  by (induction m) auto

lemma index_foldl_distinct:
  "distinct (map fst m @ map entryKey es) \<Longrightarrow>
   foldl (\<lambda>m e. AList.update (entryKey e) e m) m es = m @ map (\<lambda>e. (entryKey e, e)) es"
proof (induction es arbitrary: m)
  case Nil
  then show ?case by simp
next
  case (Cons e es)
  then have fresh: "entryKey e \<notin> fst ` set m" by auto
  have "distinct (map fst (m @ [(entryKey e, e)]) @ map entryKey es)"
    using Cons.prems by auto
  from Cons.IH [OF this] show ?case by (simp add: update_fresh [OF fresh])
qed

lemma indexExisting_distinct:
  "distinct (map entryKey es) \<Longrightarrow> indexExisting es = map (\<lambda>e. (entryKey e, e)) es"
  using index_foldl_distinct [of "[]" es] by (simp add: indexExisting_def)

lemma keys_update: "fst ` set (AList.update k v m) = insert k (fst ` set m)"
  by (induction m) auto

lemma keys_index_foldl:
  "fst ` set (foldl (\<lambda>m e. AList.update (entryKey e) e m) m es) =
     fst ` set m \<union> entryKey ` set es"
  by (induction es arbitrary: m) (simp_all add: keys_update)

lemma keys_indexExisting: "fst ` set (indexExisting es) = entryKey ` set es"
  by (simp add: indexExisting_def keys_index_foldl)

lemma set_merged: "set (merged c m) = snd ` set m"
  by (simp add: merged_def)

lemma length_merged: "length (merged c m) = length m"
  by (simp add: merged_def)

lemma keyed_member: "keyed m \<Longrightarrow> (k, e) \<in> set m \<Longrightarrow> entryKey e = k"
  by (auto simp: keyed_def list_all_iff)

lemma keyed_values_iff: "keyed m \<Longrightarrow> e \<in> snd ` set m \<longleftrightarrow> map_of m (entryKey e) = Some e"
proof
  assume k: "keyed m" and "e \<in> snd ` set m"
  then obtain k' where "(k', e) \<in> set m" by auto
  moreover from this k have "k' = entryKey e" by (auto dest: keyed_member)
  ultimately show "map_of m (entryKey e) = Some e" using k by (simp add: keyed_def)
next
  assume "map_of m (entryKey e) = Some e"
  then show "e \<in> snd ` set m" by (auto dest!: map_of_SomeD intro: rev_image_eqI)
qed

lemma keyed_unique:
  "keyed m \<Longrightarrow> e1 \<in> snd ` set m \<Longrightarrow> e2 \<in> snd ` set m \<Longrightarrow> entryKey e1 = entryKey e2 \<Longrightarrow> e1 = e2"
  by (simp add: keyed_values_iff)

lemma keyed_final: "keyed (mergeLoop (indexExisting H) ps)"
  by (simp add: keyed_mergeLoop keyed_indexExisting)

lemma reconcile_member:
  "e \<in> set (reconcile c H ps) \<longleftrightarrow> map_of (mergeLoop (indexExisting H) ps) (entryKey e) = Some e"
  by (simp add: reconcile_def set_merged keyed_values_iff [OF keyed_final])

lemma reconcile_keys:
  "entryKey ` set (reconcile c H ps) = entryKey ` set H \<union> parsedKey ` set ps"
proof -
  let ?m = "mergeLoop (indexExisting H) ps"
  have "entryKey ` snd ` set ?m = fst ` set ?m"
    using keyed_final [of H ps] by (force simp: keyed_def list_all_iff image_iff)
  then show ?thesis
    using keys_mergeLoop [of "indexExisting H" ps] keys_indexExisting [of H]
    by (simp add: reconcile_def set_merged)
qed

lemma reconcile_unique:
  "e1 \<in> set (reconcile c H ps) \<Longrightarrow> e2 \<in> set (reconcile c H ps) \<Longrightarrow>
   entryKey e1 = entryKey e2 \<Longrightarrow> e1 = e2"
  by (simp add: reconcile_member)

lemma reconcile_distinct_keys: "distinct (map entryKey (reconcile c H ps))"
proof -
  let ?m = "mergeLoop (indexExisting H) ps"
  have k: "keyed ?m" by (rule keyed_final)
  then have "map (entryKey \<circ> snd) ?m = map fst ?m"
    by (auto simp: keyed_def list_all_iff)
  moreover from k have "distinct (map fst ?m)" unfolding keyed_def by blast
  ultimately have "distinct (map (entryKey \<circ> snd) ?m)" by (simp only:)
  then have "distinct (map entryKey (map snd ?m))" by simp
  then have "distinct (map snd ?m) \<and> inj_on entryKey (set (map snd ?m))"
    by (simp only: distinct_map)
  then have "distinct (reconcile c H ps) \<and> inj_on entryKey (set (reconcile c H ps))"
    by (simp add: reconcile_def merged_def)
  then show ?thesis by (simp only: distinct_map)
qed

section \<open>The whole merge\<close>

lemma mergeLoop_observed:
  "p \<in> set ps \<Longrightarrow> \<exists>e. map_of (mergeLoop m ps) (parsedKey p) = Some e \<and> score e \<noteq> []"
proof (induction ps arbitrary: m)
  case Nil
  then show ?case by simp
next
  case (Cons q ps)
  show ?case
  proof (cases "p = q")
    case True
    obtain e1 where e1: "map_of (mergeStep m q) (parsedKey q) = Some e1" "score e1 \<noteq> []"
      by (cases "map_of m (parsedKey q)") (auto simp: mergeStep_at_key asTextEntry_def)
    from mergeLoop_extends [OF e1(1), of ps] e1(2) True show ?thesis
      by (auto simp: mergeLoop_Cons dest: extends_nonempty)
  next
    case False
    with Cons.prems have "p \<in> set ps" by simp
    from Cons.IH [OF this, of "mergeStep m q"] show ?thesis by (simp add: mergeLoop_Cons)
  qed
qed

lemma reconcile_of_map:
  "map_of (mergeLoop (indexExisting H) ps) k = Some e \<Longrightarrow> e \<in> set (reconcile c H ps) \<and> entryKey e = k"
  using keyed_lookup [OF keyed_final, of H ps k e] by (simp add: reconcile_member)

section \<open>Score changes (C1)\<close>



section \<open>Growth of the history (C3)\<close>

text \<open>
  C3, as the claim states it, fails on a loaded history in which two entries have the same
  identity key: the index keeps the later one only, so that the saved history is shorter
  than the loaded one and the earlier entry is gone, although no observation matched it.
\<close>

theorem monotonic_growth_counterexample:
  "length (reconcile length
      [\<lparr>name = ''A'', url = ''u1'', score = [\<lparr>timestamp = ''t0'', points = 5\<rparr>]\<rparr>,
       \<lparr>name = ''B'', url = ''u1'', score = [\<lparr>timestamp = ''t0'', points = 6\<rparr>]\<rparr>] [])
     < length
      [\<lparr>name = ''A'', url = ''u1'', score = [\<lparr>timestamp = ''t0'', points = 5\<rparr>]\<rparr>,
       \<lparr>name = ''B'', url = ''u1'', score = [\<lparr>timestamp = ''t0'', points = 6\<rparr>]\<rparr>] \<and>
   \<lparr>name = ''A'', url = ''u1'', score = [\<lparr>timestamp = ''t0'', points = 5\<rparr>]\<rparr>
     \<notin> set (reconcile length
      [\<lparr>name = ''A'', url = ''u1'', score = [\<lparr>timestamp = ''t0'', points = 5\<rparr>]\<rparr>,
       \<lparr>name = ''B'', url = ''u1'', score = [\<lparr>timestamp = ''t0'', points = 6\<rparr>]\<rparr>] [])"
  by (simp add: reconcile_def merged_def mergeLoop_def indexExisting_def entryKey_def orElse_def)

text \<open>
  C3, amended. For a history whose entries have pairwise distinct identity keys (which
  every saved history has, see \<open>reconcile_distinct_keys\<close>): the saved history has at least
  as many entries as the loaded one; every loaded entry has an entry of the same key in
  the saved history whose score is at least as long; and a loaded entry whose key is the
  key of no parsed entry is in the saved history as it was.
\<close>

theorem monotonic_growth:
  assumes "distinct (map entryKey H)"
  shows "length H \<le> length (reconcile c H ps) \<and>
         (\<forall>e\<in>set H. \<exists>e'\<in>set (reconcile c H ps).
             entryKey e' = entryKey e \<and> length (score e) \<le> length (score e')) \<and>
         (\<forall>e\<in>set H. entryKey e \<notin> parsedKey ` set ps \<longrightarrow> e \<in> set (reconcile c H ps))"
proof -
  have idx: "indexExisting H = map (\<lambda>e. (entryKey e, e)) H"
    using assms by (rule indexExisting_distinct)
  have look: "map_of (indexExisting H) (entryKey e) = Some e" if "e \<in> set H" for e
  proof -
    have "distinct (map fst (indexExisting H))" using assms by (simp add: idx comp_def)
    moreover have "(entryKey e, e) \<in> set (indexExisting H)" using that by (auto simp: idx)
    ultimately show ?thesis by simp
  qed
  have "length H \<le> length (reconcile c H ps)"
    using length_mergeLoop [of "indexExisting H" ps]
    by (simp add: reconcile_def length_merged idx)
  moreover have "\<exists>e'\<in>set (reconcile c H ps).
      entryKey e' = entryKey e \<and> length (score e) \<le> length (score e')" if "e \<in> set H" for e
  proof -
    from mergeLoop_extends [OF look [OF that], of ps] obtain e' where
      e': "map_of (mergeLoop (indexExisting H) ps) (entryKey e) = Some e'" "extends e e'" by blast
    from reconcile_of_map [OF e'(1)] e'(2) show ?thesis
      by (auto dest: extends_length)
  qed
  moreover have "e \<in> set (reconcile c H ps)"
    if "e \<in> set H" "entryKey e \<notin> parsedKey ` set ps" for e
    using look [OF that(1)] mergeLoop_other [OF that(2), of "indexExisting H"]
    by (simp add: reconcile_member)
  ultimately show ?thesis by blast
qed

theorem monotonic_growth_witness:
  "distinct (map entryKey
      [\<lparr>name = ''A'', url = ''u1'', score = [\<lparr>timestamp = ''t0'', points = 5\<rparr>]\<rparr>,
       \<lparr>name = ''C'', url = [], score = [\<lparr>timestamp = ''t0'', points = 2\<rparr>]\<rparr>]) \<and>
   length [\<lparr>name = ''A'', url = ''u1'', score = [\<lparr>timestamp = ''t0'', points = 5\<rparr>]\<rparr>,
       \<lparr>name = ''C'', url = [], score = [\<lparr>timestamp = ''t0'', points = 2\<rparr>]\<rparr>]
     \<le> length (reconcile length
      [\<lparr>name = ''A'', url = ''u1'', score = [\<lparr>timestamp = ''t0'', points = 5\<rparr>]\<rparr>,
       \<lparr>name = ''C'', url = [], score = [\<lparr>timestamp = ''t0'', points = 2\<rparr>]\<rparr>]
      [\<lparr>p_name = ''A'', p_url = ''u1'', p_timestamp = ''t1'', p_points = 7\<rparr>]) \<and>
   \<lparr>name = ''C'', url = [], score = [\<lparr>timestamp = ''t0'', points = 2\<rparr>]\<rparr>
     \<in> set (reconcile length
      [\<lparr>name = ''A'', url = ''u1'', score = [\<lparr>timestamp = ''t0'', points = 5\<rparr>]\<rparr>,
       \<lparr>name = ''C'', url = [], score = [\<lparr>timestamp = ''t0'', points = 2\<rparr>]\<rparr>]
      [\<lparr>p_name = ''A'', p_url = ''u1'', p_timestamp = ''t1'', p_points = 7\<rparr>])"
  (is "distinct (map entryKey ?H) \<and> length ?H \<le> length (reconcile length ?H ?ps) \<and> ?C \<in> _")
proof -
  have h: "distinct (map entryKey ?H)" by (simp add: entryKey_def orElse_def)
  have c: "?C \<in> set ?H" by simp
  have n: "entryKey ?C \<notin> parsedKey ` set ?ps" by (simp add: entryKey_def parsedKey_def orElse_def)
  from monotonic_growth [OF h, of length ?ps] c n h show ?thesis by blast
qed

section \<open>Identity of entries (C4)\<close>

lemma entryKey_if: "entryKey e = (if url e \<noteq> [] then url e else name e)"
  by (simp add: entryKey_def orElse_def)

lemma parsedKey_if: "parsedKey p = (if p_url p \<noteq> [] then p_url p else p_name p)"
  by (simp add: parsedKey_def orElse_def)

text \<open>
  C4. Take two items, each a parsed entry or an entry of the loaded history, with the
  names \<open>n1\<close>, \<open>n2\<close> and the urls \<open>u1\<close>, \<open>u2\<close>. The key of an item is its url when
  the url is not empty, and its name otherwise. The saved history holds an entry \<open>e1\<close>
  with the key of the first item and an entry \<open>e2\<close> with the key of the second, each
  the only entry of its key, and \<open>e1\<close> is \<open>e2\<close> exactly when the two keys are equal.
  So the same non-empty url gives one entry whatever the names are, and empty urls with
  the same name give one entry; two different non-empty urls give two entries, and empty
  urls with different names give two entries: where the url is empty, the name decides.
\<close>

theorem identity_precedence:
  assumes "(n1, u1) \<in> (\<lambda>p. (p_name p, p_url p)) ` set ps \<union> (\<lambda>e. (name e, url e)) ` set H"
    and "(n2, u2) \<in> (\<lambda>p. (p_name p, p_url p)) ` set ps \<union> (\<lambda>e. (name e, url e)) ` set H"
  shows "\<exists>e1 e2.
           e1 \<in> set (reconcile c H ps) \<and>
           (if url e1 \<noteq> [] then url e1 else name e1) = (if u1 \<noteq> [] then u1 else n1) \<and>
           e2 \<in> set (reconcile c H ps) \<and>
           (if url e2 \<noteq> [] then url e2 else name e2) = (if u2 \<noteq> [] then u2 else n2) \<and>
           (\<forall>x\<in>set (reconcile c H ps).
              (if url x \<noteq> [] then url x else name x) = (if u1 \<noteq> [] then u1 else n1) \<longrightarrow> x = e1) \<and>
           (\<forall>x\<in>set (reconcile c H ps).
              (if url x \<noteq> [] then url x else name x) = (if u2 \<noteq> [] then u2 else n2) \<longrightarrow> x = e2) \<and>
           ((e1 = e2) = ((if u1 \<noteq> [] then u1 else n1) = (if u2 \<noteq> [] then u2 else n2))) \<and>
           (u1 \<noteq> [] \<and> u2 = u1 \<longrightarrow> e1 = e2) \<and>
           (u1 = [] \<and> u2 = [] \<and> n2 = n1 \<longrightarrow> e1 = e2) \<and>
           (u1 \<noteq> [] \<and> u2 \<noteq> [] \<and> u2 \<noteq> u1 \<longrightarrow> e1 \<noteq> e2) \<and>
           (u1 = [] \<and> u2 = [] \<and> n2 \<noteq> n1 \<longrightarrow> e1 \<noteq> e2)"
proof -
  let ?R = "reconcile c H ps"
  let ?k1 = "if u1 \<noteq> [] then u1 else n1" and ?k2 = "if u2 \<noteq> [] then u2 else n2"
  have in_keys: "(if u \<noteq> [] then u else n) \<in> entryKey ` set ?R"
    if "(n, u) \<in> (\<lambda>p. (p_name p, p_url p)) ` set ps \<union> (\<lambda>e. (name e, url e)) ` set H" for n u
  proof -
    from that have "(if u \<noteq> [] then u else n) \<in> entryKey ` set H \<union> parsedKey ` set ps"
      by (force simp: entryKey_if parsedKey_if)
    then show ?thesis by (simp only: reconcile_keys)
  qed
  from in_keys [OF assms(1)] obtain e1 where e1: "e1 \<in> set ?R" "entryKey e1 = ?k1" by auto
  from in_keys [OF assms(2)] obtain e2 where e2: "e2 \<in> set ?R" "entryKey e2 = ?k2" by auto
  have u1: "\<forall>x\<in>set ?R. entryKey x = ?k1 \<longrightarrow> x = e1"
    using e1 by (auto intro: reconcile_unique)
  have u2: "\<forall>x\<in>set ?R. entryKey x = ?k2 \<longrightarrow> x = e2"
    using e2 by (auto intro: reconcile_unique)
  have eq: "(e1 = e2) = (?k1 = ?k2)"
  proof
    assume "e1 = e2"
    with e1(2) e2(2) show "?k1 = ?k2" by simp
  next
    assume "?k1 = ?k2"
    with e1 e2 have "entryKey e1 = entryKey e2" by simp
    with e1(1) e2(1) show "e1 = e2" by (rule reconcile_unique)
  qed
  have cases: "(u1 \<noteq> [] \<and> u2 = u1 \<longrightarrow> e1 = e2) \<and>
           (u1 = [] \<and> u2 = [] \<and> n2 = n1 \<longrightarrow> e1 = e2) \<and>
           (u1 \<noteq> [] \<and> u2 \<noteq> [] \<and> u2 \<noteq> u1 \<longrightarrow> e1 \<noteq> e2) \<and>
           (u1 = [] \<and> u2 = [] \<and> n2 \<noteq> n1 \<longrightarrow> e1 \<noteq> e2)"
    unfolding eq by auto
  show ?thesis
    apply (rule exI [of _ e1])
    apply (rule exI [of _ e2])
    using e1 e2 u1 u2 eq cases unfolding entryKey_if
    apply (intro conjI)
              apply blast+
    done
qed

text \<open>
  Two parsed entries with the url \<open>u\<close> and the names A and B, then three with an empty
  url and the names Alpha, Beta, Alpha: the saved history has one entry for the url, one
  for Alpha with both of its points, and one for Beta.
\<close>

theorem identity_precedence_witness:
  "reconcile length []
     [\<lparr>p_name = ''A'', p_url = ''u'', p_timestamp = ''t1'', p_points = 5\<rparr>,
      \<lparr>p_name = ''B'', p_url = ''u'', p_timestamp = ''t1'', p_points = 5\<rparr>,
      \<lparr>p_name = ''Alpha'', p_url = [], p_timestamp = ''t1'', p_points = 5\<rparr>,
      \<lparr>p_name = ''Beta'', p_url = [], p_timestamp = ''t1'', p_points = 9\<rparr>,
      \<lparr>p_name = ''Alpha'', p_url = [], p_timestamp = ''t1'', p_points = 6\<rparr>] =
     [\<lparr>name = ''A'', url = ''u'', score = [\<lparr>timestamp = ''t1'', points = 5\<rparr>]\<rparr>,
      \<lparr>name = ''Beta'', url = [], score = [\<lparr>timestamp = ''t1'', points = 9\<rparr>]\<rparr>,
      \<lparr>name = ''Alpha'', url = [],
        score = [\<lparr>timestamp = ''t1'', points = 5\<rparr>, \<lparr>timestamp = ''t1'', points = 6\<rparr>]\<rparr>] \<and>
   (\<exists>e1 e2.
      e1 \<in> set (reconcile length []
     [\<lparr>p_name = ''A'', p_url = ''u'', p_timestamp = ''t1'', p_points = 5\<rparr>,
      \<lparr>p_name = ''B'', p_url = ''u'', p_timestamp = ''t1'', p_points = 5\<rparr>,
      \<lparr>p_name = ''Alpha'', p_url = [], p_timestamp = ''t1'', p_points = 5\<rparr>,
      \<lparr>p_name = ''Beta'', p_url = [], p_timestamp = ''t1'', p_points = 9\<rparr>,
      \<lparr>p_name = ''Alpha'', p_url = [], p_timestamp = ''t1'', p_points = 6\<rparr>]) \<and>
      e2 \<in> set (reconcile length []
     [\<lparr>p_name = ''A'', p_url = ''u'', p_timestamp = ''t1'', p_points = 5\<rparr>,
      \<lparr>p_name = ''B'', p_url = ''u'', p_timestamp = ''t1'', p_points = 5\<rparr>,
      \<lparr>p_name = ''Alpha'', p_url = [], p_timestamp = ''t1'', p_points = 5\<rparr>,
      \<lparr>p_name = ''Beta'', p_url = [], p_timestamp = ''t1'', p_points = 9\<rparr>,
      \<lparr>p_name = ''Alpha'', p_url = [], p_timestamp = ''t1'', p_points = 6\<rparr>]) \<and>
      (if url e1 \<noteq> [] then url e1 else name e1) = ''Alpha'' \<and>
      (if url e2 \<noteq> [] then url e2 else name e2) = ''Beta'' \<and> e1 \<noteq> e2)"
  (is "reconcile length [] ?ps = ?R \<and> _")
proof -
  have r: "reconcile length [] ?ps = ?R"
    by (simp add: reconcile_def merged_def mergeLoop_def mergeStep_def indexExisting_def
        parsedKey_def orElse_def lastScore_def asTextEntry_def Let_def)
  have a: "(''Alpha'', []) \<in> (\<lambda>p. (p_name p, p_url p)) ` set ?ps \<union> (\<lambda>e. (name e, url e)) ` set []"
    by simp
  have b: "(''Beta'', []) \<in> (\<lambda>p. (p_name p, p_url p)) ` set ?ps \<union> (\<lambda>e. (name e, url e)) ` set []"
    by simp
  from identity_precedence [OF a b, of length] obtain e1 e2 where
    "e1 \<in> set (reconcile length [] ?ps)" "e2 \<in> set (reconcile length [] ?ps)"
    "(if url e1 \<noteq> [] then url e1 else name e1) = ''Alpha''"
    "(if url e2 \<noteq> [] then url e2 else name e2) = ''Beta''" "e1 \<noteq> e2"
    by auto
  with r show ?thesis by blast
qed

section \<open>Name and url are never updated (C6)\<close>

text \<open>
  C6. An entry \<open>e\<close> that the index of the loaded history holds under the key \<open>k\<close> (every
  entry of a history with distinct keys is one) has exactly one entry of key \<open>k\<close> in the
  saved history, whatever the parsed entries are and whatever names they carry: it has
  the name and the url of \<open>e\<close>, and its score starts with the score of \<open>e\<close>, so that
  the only change is score points appended.
\<close>

theorem name_url_frame:
  assumes "map_of (indexExisting H) k = Some e"
  shows "\<exists>e'. e' \<in> set (reconcile c H ps) \<and> entryKey e' = k \<and>
              name e' = name e \<and> url e' = url e \<and>
              take (length (score e)) (score e') = score e \<and>
              (\<forall>x\<in>set (reconcile c H ps). entryKey x = k \<longrightarrow> x = e')"
proof -
  from mergeLoop_extends [OF assms, of ps] obtain e' where
    e': "map_of (mergeLoop (indexExisting H) ps) k = Some e'" "extends e e'" by blast
  have in': "e' \<in> set (reconcile c H ps)" "entryKey e' = k"
    using reconcile_of_map [OF e'(1)] by blast+
  have "\<forall>x\<in>set (reconcile c H ps). entryKey x = k \<longrightarrow> x = e'"
    using in' by (auto intro: reconcile_unique)
  with in' e'(2) show ?thesis unfolding extends_def by blast
qed

theorem name_url_frame_witness:
  "map_of (indexExisting [\<lparr>name = ''A'', url = ''u1'', score = [\<lparr>timestamp = ''t0'', points = 5\<rparr>]\<rparr>]) ''u1'' =
     Some \<lparr>name = ''A'', url = ''u1'', score = [\<lparr>timestamp = ''t0'', points = 5\<rparr>]\<rparr> \<and>
   (\<exists>e'\<in>set (reconcile length [\<lparr>name = ''A'', url = ''u1'', score = [\<lparr>timestamp = ''t0'', points = 5\<rparr>]\<rparr>]
        [\<lparr>p_name = ''A renamed'', p_url = ''u1'', p_timestamp = ''t1'', p_points = 7\<rparr>]).
      entryKey e' = ''u1'' \<and> name e' = ''A'' \<and> url e' = ''u1'')"
  (is "?h \<and> ?c")
proof -
  have h: ?h by (simp add: indexExisting_def entryKey_def orElse_def)
  from name_url_frame [OF h, of length] h show ?thesis by fastforce
qed

section \<open>Observed entries have a score (C8)\<close>

text \<open>
  C8. Every parsed entry has an entry of its key in the saved history, and the score of
  that entry is not empty. Round by round: a key that is absent gets the parsed entry
  itself, whose score is its one score point; an entry that is present with an empty score
  gets the score point appended; and an entry whose score is not empty keeps a score that
  is not empty.
\<close>

theorem observed_nonempty:
  "(\<forall>q\<in>set ps. \<exists>e\<in>set (reconcile c H ps). entryKey e = parsedKey q \<and> score e \<noteq> []) \<and>
   (map_of m (parsedKey p) = None \<longrightarrow>
      map_of (mergeStep m p) (parsedKey p) = Some (asTextEntry p) \<and>
      score (asTextEntry p) = [\<lparr>timestamp = p_timestamp p, points = p_points p\<rparr>]) \<and>
   (\<forall>e. map_of m (parsedKey p) = Some e \<and> score e = [] \<longrightarrow>
      map_of (mergeStep m p) (parsedKey p) =
        Some (e\<lparr>score := [\<lparr>timestamp = p_timestamp p, points = p_points p\<rparr>]\<rparr>)) \<and>
   (\<forall>k e. map_of m k = Some e \<and> score e \<noteq> [] \<longrightarrow>
      (\<exists>e'. map_of (mergeStep m p) k = Some e' \<and> score e' \<noteq> []))"
proof -
  have "\<exists>e\<in>set (reconcile c H ps). entryKey e = parsedKey q \<and> score e \<noteq> []" if "q \<in> set ps" for q
  proof -
    from mergeLoop_observed [OF that, of "indexExisting H"] obtain e where
      e: "map_of (mergeLoop (indexExisting H) ps) (parsedKey q) = Some e" "score e \<noteq> []" by blast
    from reconcile_of_map [OF e(1)] e(2) show ?thesis by blast
  qed
  moreover have "map_of m (parsedKey p) = None \<longrightarrow>
      map_of (mergeStep m p) (parsedKey p) = Some (asTextEntry p) \<and>
      score (asTextEntry p) = [\<lparr>timestamp = p_timestamp p, points = p_points p\<rparr>]"
    by (simp add: mergeStep_at_key asTextEntry_def)
  moreover have "\<forall>e. map_of m (parsedKey p) = Some e \<and> score e = [] \<longrightarrow>
      map_of (mergeStep m p) (parsedKey p) =
        Some (e\<lparr>score := [\<lparr>timestamp = p_timestamp p, points = p_points p\<rparr>]\<rparr>)"
    by (simp add: mergeStep_at_key pointOf_def)
  moreover have "\<forall>k e. map_of m k = Some e \<and> score e \<noteq> [] \<longrightarrow>
      (\<exists>e'. map_of (mergeStep m p) k = Some e' \<and> score e' \<noteq> [])"
    using mergeStep_extends [of m _ _ p] by (blast dest: extends_nonempty)
  ultimately show ?thesis by blast
qed

theorem observed_nonempty_witness:
  "(\<exists>e\<in>set (reconcile length [] [\<lparr>p_name = ''A'', p_url = ''u1'', p_timestamp = ''t1'', p_points = 7\<rparr>]).
      entryKey e = parsedKey \<lparr>p_name = ''A'', p_url = ''u1'', p_timestamp = ''t1'', p_points = 7\<rparr> \<and>
      score e \<noteq> []) \<and>
   map_of [] (parsedKey \<lparr>p_name = ''A'', p_url = ''u1'', p_timestamp = ''t1'', p_points = 7\<rparr>) = None \<and>
   map_of (mergeStep [] \<lparr>p_name = ''A'', p_url = ''u1'', p_timestamp = ''t1'', p_points = 7\<rparr>) ''u1'' =
     Some \<lparr>name = ''A'', url = ''u1'', score = [\<lparr>timestamp = ''t1'', points = 7\<rparr>]\<rparr> \<and>
   map_of [(''u1'', \<lparr>name = ''A'', url = ''u1'', score = []\<rparr>)]
     (parsedKey \<lparr>p_name = ''A'', p_url = ''u1'', p_timestamp = ''t1'', p_points = 7\<rparr>) =
     Some \<lparr>name = ''A'', url = ''u1'', score = []\<rparr> \<and>
   map_of (mergeStep [(''u1'', \<lparr>name = ''A'', url = ''u1'', score = []\<rparr>)]
       \<lparr>p_name = ''A'', p_url = ''u1'', p_timestamp = ''t1'', p_points = 7\<rparr>) ''u1'' =
     Some \<lparr>name = ''A'', url = ''u1'', score = [\<lparr>timestamp = ''t1'', points = 7\<rparr>]\<rparr>"
  (is "(\<exists>e\<in>set (reconcile length [] [?p]). _) \<and> ?n \<and> _ \<and> ?s \<and> _")
proof -
  have n: ?n by simp
  have s: ?s by (simp add: parsedKey_def orElse_def)
  have k: "parsedKey ?p = ''u1''" by (simp add: parsedKey_def orElse_def)
  have e: "score \<lparr>name = ''A'', url = ''u1'', score = []\<rparr> = []" by simp
  from observed_nonempty [of "[?p]" length "[]" "[]" ?p]
    observed_nonempty [of "[]" length "[]" "[(''u1'', \<lparr>name = ''A'', url = ''u1'', score = []\<rparr>)]" ?p]
    n s e
  show ?thesis by (simp add: k asTextEntry_def)
qed

section \<open>The same key twice in one run (C10)\<close>

text \<open>
  C10. Let \<open>p\<close> and \<open>q\<close> be parsed entries of one run with the same key, \<open>p\<close> first, and
  no entry of that key between them. After the round of \<open>p\<close> the map holds an entry
  \<open>e1\<close> under the key whose last points are those of \<open>p\<close>: the parsed entry itself,
  with its one score point, when the key was absent, and otherwise the entry that was
  there, with at most the score point of \<open>p\<close> appended. After the round of \<open>q\<close> the map
  holds \<open>e1\<close> unchanged if \<open>q\<close> carries the same points, so that the value is not
  recorded a second time, and \<open>e1\<close> with the score point of \<open>q\<close> appended if it carries
  different points.
\<close>

theorem same_key_twice:
  assumes "parsedKey q = parsedKey p"
    and "\<forall>r\<in>set mid. parsedKey r \<noteq> parsedKey p"
  shows "\<exists>e1. map_of (mergeStep m p) (parsedKey p) = Some e1 \<and>
           e1 = (case map_of m (parsedKey p) of
                   None \<Rightarrow> asTextEntry p
                 | Some e \<Rightarrow>
                     if score e = [] \<or> points (last (score e)) \<noteq> p_points p
                     then e\<lparr>score := score e @ [\<lparr>timestamp = p_timestamp p, points = p_points p\<rparr>]\<rparr>
                     else e) \<and>
           score e1 \<noteq> [] \<and> points (last (score e1)) = p_points p \<and>
           map_of (mergeLoop m (p # mid @ [q])) (parsedKey p) =
             Some (if p_points q = p_points p then e1
                   else e1\<lparr>score := score e1 @ [\<lparr>timestamp = p_timestamp q, points = p_points q\<rparr>]\<rparr>)"
proof -
  define e1 where "e1 =
    (case map_of m (parsedKey p) of
       None \<Rightarrow> asTextEntry p
     | Some e \<Rightarrow>
         if score e = [] \<or> points (last (score e)) \<noteq> p_points p
         then e\<lparr>score := score e @ [\<lparr>timestamp = p_timestamp p, points = p_points p\<rparr>]\<rparr>
         else e)"
  have e1: "map_of (mergeStep m p) (parsedKey p) = Some e1"
      "score e1 \<noteq> []" "points (last (score e1)) = p_points p"
    unfolding e1_def
    by (cases "map_of m (parsedKey p)"; simp add: mergeStep_at_key asTextEntry_def pointOf_def)+
  have "parsedKey p \<notin> parsedKey ` set mid" using assms(2) by auto
  then have at: "map_of (mergeLoop (mergeStep m p) mid) (parsedKey q) = Some e1"
    using e1(1) assms(1) by (simp add: mergeLoop_other)
  have "map_of (mergeStep (mergeLoop (mergeStep m p) mid) q) (parsedKey q) =
      Some (if p_points q = p_points p then e1
            else e1\<lparr>score := score e1 @ [\<lparr>timestamp = p_timestamp q, points = p_points q\<rparr>]\<rparr>)"
    using e1(2,3) by (simp add: mergeStep_at_key at pointOf_def)
  then have "map_of (mergeLoop m (p # mid @ [q])) (parsedKey p) =
      Some (if p_points q = p_points p then e1
            else e1\<lparr>score := score e1 @ [\<lparr>timestamp = p_timestamp q, points = p_points q\<rparr>]\<rparr>)"
    using assms(1) by (simp add: mergeLoop_Cons mergeLoop_snoc)
  with e1 e1_def show ?thesis by blast
qed

theorem same_key_twice_witness:
  "parsedKey \<lparr>p_name = ''A'', p_url = ''u'', p_timestamp = ''t2'', p_points = 5\<rparr> =
     parsedKey \<lparr>p_name = ''A'', p_url = ''u'', p_timestamp = ''t1'', p_points = 5\<rparr> \<and>
   parsedKey \<lparr>p_name = ''C'', p_url = ''v'', p_timestamp = ''t1'', p_points = 1\<rparr> \<noteq>
     parsedKey \<lparr>p_name = ''A'', p_url = ''u'', p_timestamp = ''t1'', p_points = 5\<rparr> \<and>
   map_of (mergeLoop []
      (\<lparr>p_name = ''A'', p_url = ''u'', p_timestamp = ''t1'', p_points = 5\<rparr> #
       [\<lparr>p_name = ''C'', p_url = ''v'', p_timestamp = ''t1'', p_points = 1\<rparr>] @
       [\<lparr>p_name = ''A'', p_url = ''u'', p_timestamp = ''t2'', p_points = 5\<rparr>]))
     (parsedKey \<lparr>p_name = ''A'', p_url = ''u'', p_timestamp = ''t1'', p_points = 5\<rparr>) =
     Some \<lparr>name = ''A'', url = ''u'', score = [\<lparr>timestamp = ''t1'', points = 5\<rparr>]\<rparr> \<and>
   map_of (mergeLoop []
      (\<lparr>p_name = ''A'', p_url = ''u'', p_timestamp = ''t1'', p_points = 5\<rparr> #
       [\<lparr>p_name = ''C'', p_url = ''v'', p_timestamp = ''t1'', p_points = 1\<rparr>] @
       [\<lparr>p_name = ''A'', p_url = ''u'', p_timestamp = ''t2'', p_points = 8\<rparr>]))
     (parsedKey \<lparr>p_name = ''A'', p_url = ''u'', p_timestamp = ''t1'', p_points = 5\<rparr>) =
     Some \<lparr>name = ''A'', url = ''u'',
           score = [\<lparr>timestamp = ''t1'', points = 5\<rparr>, \<lparr>timestamp = ''t2'', points = 8\<rparr>]\<rparr>"
  (is "parsedKey ?q = parsedKey ?p \<and> parsedKey ?r \<noteq> _ \<and> _ \<and> map_of (mergeLoop [] (_ # _ @ [?q'])) _ = _")
proof -
  have a: "parsedKey ?q = parsedKey ?p" by (simp add: parsedKey_def)
  have a': "parsedKey ?q' = parsedKey ?p" by (simp add: parsedKey_def)
  have b: "\<forall>r\<in>set [?r]. parsedKey r \<noteq> parsedKey ?p" by (simp add: parsedKey_def orElse_def)
  have s: "mergeStep [] ?p = [(''u'', asTextEntry ?p)]"
    by (simp add: mergeStep_def parsedKey_def orElse_def)
  from same_key_twice [OF a b, of "[]"] same_key_twice [OF a' b, of "[]"] a b
  show ?thesis unfolding s by (simp add: parsedKey_def orElse_def asTextEntry_def)
qed

section \<open>Reconciling twice (C2)\<close>

lemma mergeStep_noop:
  "map_of m (parsedKey p) = Some e \<Longrightarrow> score e \<noteq> [] \<Longrightarrow> points (last (score e)) = p_points p \<Longrightarrow>
   mergeStep m p = m"
  by (simp add: mergeStep_present)

lemma mergeStep_settles:
  "\<exists>e. map_of (mergeStep m p) (parsedKey p) = Some e \<and> score e \<noteq> [] \<and>
       points (last (score e)) = p_points p"
  by (cases "map_of m (parsedKey p)") (auto simp: mergeStep_at_key asTextEntry_def pointOf_def)

lemma mergeLoop_settled:
  assumes "\<forall>p\<in>set ps. \<forall>q\<in>set ps. parsedKey p = parsedKey q \<longrightarrow> p_points p = p_points q"
    and "p \<in> set ps"
  shows "\<exists>e. map_of (mergeLoop m ps) (parsedKey p) = Some e \<and> score e \<noteq> [] \<and>
       points (last (score e)) = p_points p"
  using assms
proof (induction ps rule: rev_induct)
  case Nil
  then show ?case by simp
next
  case (snoc q ps)
  have agree: "p_points a = p_points b"
    if "a \<in> set (ps @ [q])" "b \<in> set (ps @ [q])" "parsedKey a = parsedKey b" for a b
    using snoc.prems(1) that by blast
  show ?case
  proof (cases "parsedKey p = parsedKey q")
    case True
    have "p_points p = p_points q"
      by (rule agree [OF snoc.prems(2) _ True]) simp
    with True mergeStep_settles [of "mergeLoop m ps" q] show ?thesis
      by (simp add: mergeLoop_snoc)
  next
    case False
    from snoc.prems(2) have "p = q \<or> p \<in> set ps" by simp
    with False have in_ps: "p \<in> set ps" by blast
    have "\<forall>a\<in>set ps. \<forall>b\<in>set ps. parsedKey a = parsedKey b \<longrightarrow> p_points a = p_points b"
    proof (intro ballI impI)
      fix a b
      assume "a \<in> set ps" "b \<in> set ps" "parsedKey a = parsedKey b"
      then show "p_points a = p_points b" by (intro agree) simp_all
    qed
    from snoc.IH [OF this in_ps]
    have "\<exists>e. map_of (mergeLoop m ps) (parsedKey p) = Some e \<and> score e \<noteq> [] \<and>
       points (last (score e)) = p_points p" .
    with False show ?thesis by (simp add: mergeLoop_snoc mergeStep_other)
  qed
qed

lemma mergeLoop_noop:
  "\<forall>p\<in>set ps. \<exists>e. map_of m (parsedKey p) = Some e \<and> score e \<noteq> [] \<and>
       points (last (score e)) = p_points p \<Longrightarrow> mergeLoop m ps = m"
proof (induction ps)
  case Nil
  then show ?case by (simp add: mergeLoop_Nil)
next
  case (Cons p ps)
  then have "mergeStep m p = m" by (auto intro: mergeStep_noop)
  with Cons show ?case by (simp add: mergeLoop_Cons)
qed

lemma index_of_reconcile:
  "map_of (indexExisting (reconcile c H ps)) k = map_of (mergeLoop (indexExisting H) ps) k"
proof -
  let ?R = "reconcile c H ps" and ?M = "mergeLoop (indexExisting H) ps"
  have idx: "indexExisting ?R = map (\<lambda>e. (entryKey e, e)) ?R"
    by (rule indexExisting_distinct) (rule reconcile_distinct_keys)
  have d: "distinct (map fst (indexExisting ?R))"
    using reconcile_distinct_keys [of c H ps] by (simp add: idx comp_def)
  show ?thesis
  proof (cases "map_of ?M k")
    case None
    have "k \<notin> fst ` set (indexExisting ?R)"
    proof
      assume "k \<in> fst ` set (indexExisting ?R)"
      then obtain e where "e \<in> set ?R" "entryKey e = k" by (auto simp: idx)
      then have "map_of ?M k = Some e" by (simp add: reconcile_member)
      with None show False by simp
    qed
    then have "map_of (indexExisting ?R) k = None" by (simp add: map_of_eq_None_iff)
    with None show ?thesis by simp
  next
    case (Some e)
    from reconcile_of_map [OF Some, of c] have "(k, e) \<in> set (indexExisting ?R)"
      by (auto simp: idx)
    with d have "map_of (indexExisting ?R) k = Some e" by simp
    with Some show ?thesis by simp
  qed
qed

lemma merged_index_reconcile:
  "merged c (indexExisting (reconcile c H ps)) = reconcile c H ps"
proof -
  let ?R = "reconcile c H ps"
  have idx: "indexExisting ?R = map (\<lambda>e. (entryKey e, e)) ?R"
    by (rule indexExisting_distinct) (rule reconcile_distinct_keys)
  have "sorted (map (\<lambda>e. c (name e)) ?R)"
    by (simp add: reconcile_def merged_def)
  then have "sort_key (\<lambda>e. c (name e)) ?R = ?R" by (rule sort_key_id_if_sorted)
  then show ?thesis by (simp add: merged_def idx comp_def)
qed

text \<open>
  C2, as the claim states it, fails when two parsed entries of the run have the same key
  and different points. The first run records both values, one after the other, as C10
  says; in the second run the first parsed entry differs from the last recorded points
  again, and both values are appended once more.
\<close>

theorem reconcile_idempotent_counterexample:
  "reconcile length []
     [\<lparr>p_name = ''A'', p_url = ''u'', p_timestamp = ''t1'', p_points = 5\<rparr>,
      \<lparr>p_name = ''A'', p_url = ''u'', p_timestamp = ''t1'', p_points = 7\<rparr>] =
     [\<lparr>name = ''A'', url = ''u'',
       score = [\<lparr>timestamp = ''t1'', points = 5\<rparr>, \<lparr>timestamp = ''t1'', points = 7\<rparr>]\<rparr>] \<and>
   reconcile length
     (reconcile length []
       [\<lparr>p_name = ''A'', p_url = ''u'', p_timestamp = ''t1'', p_points = 5\<rparr>,
        \<lparr>p_name = ''A'', p_url = ''u'', p_timestamp = ''t1'', p_points = 7\<rparr>])
     [\<lparr>p_name = ''A'', p_url = ''u'', p_timestamp = ''t1'', p_points = 5\<rparr>,
      \<lparr>p_name = ''A'', p_url = ''u'', p_timestamp = ''t1'', p_points = 7\<rparr>] =
     [\<lparr>name = ''A'', url = ''u'',
       score = [\<lparr>timestamp = ''t1'', points = 5\<rparr>, \<lparr>timestamp = ''t1'', points = 7\<rparr>,
                \<lparr>timestamp = ''t1'', points = 5\<rparr>, \<lparr>timestamp = ''t1'', points = 7\<rparr>]\<rparr>]"
  by code_simp

text \<open>
  C2, amended. If any two parsed entries with the same identity key carry the same points,
  then reconciling the same parsed entries again (with any timestamps, as a later run has
  them) against the saved history gives back the saved history: no score point is
  appended, no entry is created, and the order is the same.
\<close>

theorem reconcile_idempotent:
  assumes "\<forall>p\<in>set ps. \<forall>q\<in>set ps. parsedKey p = parsedKey q \<longrightarrow> p_points p = p_points q"
    and "map (\<lambda>p. (p_name p, p_url p, p_points p)) ps' = map (\<lambda>p. (p_name p, p_url p, p_points p)) ps"
  shows "reconcile c (reconcile c H ps) ps' = reconcile c H ps"
proof -
  let ?R = "reconcile c H ps"
  let ?f = "\<lambda>p. (p_name p, p_url p, p_points p)"
  have sets: "?f ` set ps' = ?f ` set ps"
  proof -
    have "set (map ?f ps') = set (map ?f ps)" by (simp only: assms(2))
    then show ?thesis by (simp only: set_map)
  qed
  have "\<exists>e. map_of (indexExisting ?R) (parsedKey p') = Some e \<and> score e \<noteq> [] \<and>
       points (last (score e)) = p_points p'" if "p' \<in> set ps'" for p'
  proof -
    from that have "?f p' \<in> ?f ` set ps'" by (rule imageI)
    then have "?f p' \<in> ?f ` set ps" by (simp only: sets)
    then obtain p where p: "p \<in> set ps" "?f p' = ?f p" by (rule imageE)
    from p(2) have eq: "p_name p = p_name p'" "p_url p = p_url p'" "p_points p = p_points p'"
      by simp_all
    then have "parsedKey p = parsedKey p'" by (simp add: parsedKey_def)
    with mergeLoop_settled [OF assms(1) p(1), of "indexExisting H"] eq(3) show ?thesis
      by (simp add: index_of_reconcile)
  qed
  then have "\<forall>p'\<in>set ps'. \<exists>e. map_of (indexExisting ?R) (parsedKey p') = Some e \<and> score e \<noteq> [] \<and>
       points (last (score e)) = p_points p'" by (rule ballI)
  then have "mergeLoop (indexExisting ?R) ps' = indexExisting ?R"
    by (rule mergeLoop_noop)
  then have "reconcile c ?R ps' = merged c (indexExisting ?R)"
    by (simp only: reconcile_def)
  then show ?thesis by (simp only: merged_index_reconcile)
qed

theorem reconcile_idempotent_witness:
  "reconcile length
     (reconcile length []
       [\<lparr>p_name = ''A'', p_url = ''u'', p_timestamp = ''t1'', p_points = 5\<rparr>,
        \<lparr>p_name = ''B'', p_url = ''u'', p_timestamp = ''t1'', p_points = 5\<rparr>,
        \<lparr>p_name = ''C'', p_url = [], p_timestamp = ''t1'', p_points = 2\<rparr>])
     [\<lparr>p_name = ''A'', p_url = ''u'', p_timestamp = ''t2'', p_points = 5\<rparr>,
      \<lparr>p_name = ''B'', p_url = ''u'', p_timestamp = ''t2'', p_points = 5\<rparr>,
      \<lparr>p_name = ''C'', p_url = [], p_timestamp = ''t2'', p_points = 2\<rparr>] =
   reconcile length []
     [\<lparr>p_name = ''A'', p_url = ''u'', p_timestamp = ''t1'', p_points = 5\<rparr>,
      \<lparr>p_name = ''B'', p_url = ''u'', p_timestamp = ''t1'', p_points = 5\<rparr>,
      \<lparr>p_name = ''C'', p_url = [], p_timestamp = ''t1'', p_points = 2\<rparr>]"
  (is "reconcile length (reconcile length [] ?ps) ?ps' = _")
proof -
  have a: "\<forall>p\<in>set ?ps. \<forall>q\<in>set ?ps. parsedKey p = parsedKey q \<longrightarrow> p_points p = p_points q"
    by (simp add: parsedKey_def orElse_def)
  have b: "map (\<lambda>p. (p_name p, p_url p, p_points p)) ?ps' =
      map (\<lambda>p. (p_name p, p_url p, p_points p)) ?ps" by simp
  from reconcile_idempotent [OF a b, of length "[]"] show ?thesis .
qed

section \<open>Timestamps of a run (C5)\<close>

lemma eachItem_timestamps:
  "map p_timestamp (eachItem resolve now k items) =
     map (\<lambda>i. now (k + i)) [0 ..< length (eachItem resolve now k items)]"
proof (induction items arbitrary: k)
  case Nil
  then show ?case by simp
next
  case (Cons li items)
  show ?case
  proof (cases "anchor li")
    case None
    then show ?thesis using Cons.IH [of k] by simp
  next
    case (Some a)
    then show ?thesis using Cons.IH [of "Suc k"]
      by (simp add: Let_def map_upt_Suc del: upt_Suc)
  qed
qed

lemma eachItem_length:
  "length (eachItem resolve now k items) = length (filter (\<lambda>li. anchor li \<noteq> None) items)"
  by (induction items arbitrary: k) (auto simp: Let_def split: option.splits)

text \<open>
  C5, as the claim states it, fails: the timestamp is read with a \<open>new Date()\<close> of its
  own for every entry that is pushed, and no time of the start of the run is kept. When
  the clock moves on between two items, their entries carry different timestamps.
\<close>

theorem single_timestamp_counterexample:
  "map p_timestamp
     (parsedEntriesOf Some ((!) [''2026-11-02T10:00:00.000Z'', ''2026-11-02T10:00:00.001Z''])
        [\<lparr>punkteText = ''3'', liClass = None, divClass = None, liHtml = Some [],
          anchor = Some \<lparr>a_text = ''A'', a_href = Some ''https://texte.wien/a''\<rparr>\<rparr>,
         \<lparr>punkteText = ''4'', liClass = None, divClass = None, liHtml = Some [],
          anchor = Some \<lparr>a_text = ''B'', a_href = Some ''https://texte.wien/b''\<rparr>\<rparr>] []) =
   [''2026-11-02T10:00:00.000Z'', ''2026-11-02T10:00:00.001Z'']"
  by (simp add: parsedEntriesOf_def Let_def)

text \<open>
  C5, amended. The \<open>i\<close>-th parsed entry of a run carries the \<open>i\<close>-th reading of the clock
  that the extraction loop makes, one reading for every item that has a link, in document
  order. The entries of a run all carry one timestamp \<open>t\<close> when the clock reads \<open>t\<close>
  throughout the loop.
\<close>

theorem per_item_timestamps:
  "map p_timestamp (parsedEntriesOf resolve now items fallbackItems) =
     map now [0 ..< length (parsedEntriesOf resolve now items fallbackItems)] \<and>
   map p_timestamp (parsedEntriesOf resolve (\<lambda>k. t) items fallbackItems) =
     replicate (length (parsedEntriesOf resolve (\<lambda>k. t) items fallbackItems)) t"
proof -
  have "map (\<lambda>k. t) [0 ..< n] = replicate n t" for n :: nat
    by (induction n) (simp_all add: replicate_append_same)
  then show ?thesis
    using eachItem_timestamps [of resolve now 0] eachItem_timestamps [of resolve "\<lambda>k. t" 0]
    by (simp add: parsedEntriesOf_def)
qed

section \<open>The range of the points (C9)\<close>

lemma digitVal_bounds: "isDigit c \<Longrightarrow> 0 \<le> digitVal c \<and> digitVal c \<le> 9"
  by (auto simp: isDigit_def digitVal_def)

lemma parseInt_snoc: "parseInt (ds @ [c]) = 10 * parseInt ds + digitVal c"
  by (simp add: parseInt_def)

lemma parseInt_bounds:
  "list_all isDigit ds \<Longrightarrow> 0 \<le> parseInt ds \<and> parseInt ds < 10 ^ length ds"
proof (induction ds rule: rev_induct)
  case Nil
  then show ?case by (simp add: parseInt_def)
next
  case (snoc c ds)
  then have d: "0 \<le> digitVal c \<and> digitVal c \<le> 9" and
    ih: "0 \<le> parseInt ds \<and> parseInt ds < 10 ^ length ds"
    by (simp_all add: digitVal_bounds)
  then show ?case by (simp add: parseInt_snoc)
qed

lemma digitsThen_shape:
  "digitsThen n cont s = Some ds \<Longrightarrow> ds \<noteq> [] \<and> length ds \<le> n \<and> list_all isDigit ds"
  by (induction n) (auto split: if_splits)

lemma searchFirst_at: "searchFirst at s = Some r \<Longrightarrow> \<exists>t. at t = Some r"
  by (induction s) (auto split: option.splits)

lemma capture_bounds:
  assumes "ds \<noteq> [] \<and> length ds \<le> 5 \<and> list_all isDigit ds"
  shows "0 \<le> parseInt ds \<and> parseInt ds \<le> 99999"
proof -
  from assms parseInt_bounds [of ds] have "0 \<le> parseInt ds" "parseInt ds < 10 ^ length ds" by simp_all
  moreover have "(10::int) ^ length ds \<le> 10 ^ 5" using assms by (intro power_increasing) simp_all
  ultimately show ?thesis by simp
qed

lemma matchDigits_shape:
  "matchDigits s = Some ds \<Longrightarrow> ds \<noteq> [] \<and> length ds \<le> 5 \<and> list_all isDigit ds"
  unfolding matchDigits_def by (blast dest: searchFirst_at digitsThen_shape)

lemma matchPt_shape:
  "matchPt s = Some ds \<Longrightarrow> ds \<noteq> [] \<and> length ds \<le> 5 \<and> list_all isDigit ds"
  unfolding matchPt_def ptAt_def
  by (auto dest!: searchFirst_at digitsThen_shape split: if_splits)

lemma matchMarkup_shape:
  "matchMarkup s = Some ds \<Longrightarrow> ds \<noteq> [] \<and> length ds \<le> 5 \<and> list_all isDigit ds"
  unfolding matchMarkup_def markupAt_def
  by (auto dest!: searchFirst_at digitsThen_shape split: if_splits list.splits)

text \<open>
  C9. The points extracted for an item node are an integer between 0 and 99999: each of
  the three patterns captures between one and five digits, and the default is 0.
\<close>

theorem points_range: "0 \<le> parsePointsFromLi li \<and> parsePointsFromLi li \<le> 99999"
  unfolding parsePointsFromLi_def Let_def
  by (auto split: option.splits if_splits
      dest!: matchDigits_shape matchPt_shape matchMarkup_shape capture_bounds)

section \<open>The order of the three tiers (C7)\<close>

lemma takeWhile_length_ge:
  "k \<le> length (takeWhile P s) \<longleftrightarrow> k \<le> length s \<and> list_all P (take k s)"
proof (induction s arbitrary: k)
  case Nil
  then show ?case by simp
next
  case (Cons c s)
  then show ?case by (cases k) auto
qed

lemma take_takeWhile_full:
  "k \<le> length (takeWhile P s) \<Longrightarrow> take k (takeWhile P s) = take k s"
proof (induction s arbitrary: k)
  case Nil
  then show ?case by simp
next
  case (Cons c s)
  then show ?case by (cases k) (auto split: if_splits)
qed

lemma digitsThen_True:
  "digitsThen n (\<lambda>_. True) s =
     (if take n (takeWhile isDigit s) = [] then None else Some (take n (takeWhile isDigit s)))"
proof (induction n)
  case 0
  then show ?case by simp
next
  case (Suc n)
  let ?P = "Suc n \<le> length s \<and> list_all isDigit (take (Suc n) s)"
  let ?tw = "takeWhile isDigit s"
  have unfold: "digitsThen (Suc n) (\<lambda>_. True) s =
      (if ?P then Some (take (Suc n) s) else digitsThen n (\<lambda>_. True) s)"
    by simp
  show ?case
  proof (cases "Suc n \<le> length ?tw")
    case True
    then have p: ?P using takeWhile_length_ge [of "Suc n" isDigit s] by blast
    from True have eq: "take (Suc n) ?tw = take (Suc n) s" by (rule take_takeWhile_full)
    from True have "?tw \<noteq> []" by auto
    then have ne: "take (Suc n) ?tw \<noteq> []" by simp
    have "digitsThen (Suc n) (\<lambda>_. True) s = Some (take (Suc n) s)"
      unfolding unfold using p by (rule if_P)
    also have "\<dots> = Some (take (Suc n) ?tw)" by (simp only: eq)
    finally show ?thesis using ne by (simp only: if_False)
  next
    case False
    then have np: "\<not> ?P" using takeWhile_length_ge [of "Suc n" isDigit s] by blast
    from False have eq: "take (Suc n) ?tw = take n ?tw" by simp
    have "digitsThen (Suc n) (\<lambda>_. True) s = digitsThen n (\<lambda>_. True) s"
      unfolding unfold using np by (rule if_not_P)
    also have "\<dots> = (if take n ?tw = [] then None else Some (take n ?tw))"
      by (rule Suc.IH)
    finally show ?thesis by (simp only: eq)
  qed
qed

lemma matchDigits_direct: "matchDigits s = labelRun s"
proof (induction s)
  case Nil
  then show ?case by (simp add: matchDigits_def labelRun_def digitsThen_True)
next
  case (Cons c s)
  then show ?case
    by (simp add: matchDigits_def labelRun_def digitsThen_True Let_def)
qed


lemma labelRun_drop_front:
  "\<forall>c\<in>set ws. \<not> isDigit c \<Longrightarrow> labelRun (ws @ u) = labelRun u"
  by (simp add: labelRun_def dropWhile_append2)

lemma takeWhile_digits_stop:
  "\<forall>c\<in>set ws. \<not> isDigit c \<Longrightarrow> takeWhile isDigit (x @ ws) = takeWhile isDigit x"
  by (induction x) (auto simp: takeWhile_eq_Nil_iff)

lemma labelRun_drop_back:
  assumes "\<forall>c\<in>set ws. \<not> isDigit c"
  shows "labelRun (u @ ws) = labelRun u"
proof (cases "\<forall>c\<in>set u. \<not> isDigit c")
  case True
  then have "dropWhile (\<lambda>c. \<not> isDigit c) (u @ ws) = []" "dropWhile (\<lambda>c. \<not> isDigit c) u = []"
    using assms by auto
  then show ?thesis by (simp only: labelRun_def)
next
  case False
  then have "dropWhile (\<lambda>c. \<not> isDigit c) (u @ ws) = dropWhile (\<lambda>c. \<not> isDigit c) u @ ws"
    by (auto simp: dropWhile_append1)
  then show ?thesis using assms by (simp add: labelRun_def takeWhile_digits_stop)
qed

lemma space_not_digit: "isSpace c \<Longrightarrow> \<not> isDigit c"
  by (auto simp: isSpace_def isDigit_def)

lemma split_trailing: "rev (dropWhile P (rev xs)) @ rev (takeWhile P (rev xs)) = xs"
proof -
  have "rev (takeWhile P (rev xs) @ dropWhile P (rev xs)) = xs"
    by (simp only: takeWhile_dropWhile_id rev_rev_ident)
  then show ?thesis by (simp only: rev_append)
qed

lemma trim_decompose:
  "\<exists>ws1 ws2. s = ws1 @ trim s @ ws2 \<and> list_all isSpace ws1 \<and> list_all isSpace ws2"
proof -
  let ?t = "dropWhile isSpace s"
  let ?ws1 = "takeWhile isSpace s"
  let ?ws2 = "rev (takeWhile isSpace (rev ?t))"
  have t: "?t = trim s @ ?ws2"
    unfolding trim_def by (rule split_trailing [symmetric])
  have "s = ?ws1 @ ?t" by simp
  with t have s: "s = ?ws1 @ trim s @ ?ws2" by simp
  have a: "list_all isSpace ?ws1"
    by (simp add: list_all_iff) (meson set_takeWhileD)
  have b: "list_all isSpace ?ws2"
    by (simp add: list_all_iff) (meson set_takeWhileD)
  from s a b show ?thesis by blast
qed

lemma labelRun_trim: "labelRun (trim s) = labelRun s"
proof -
  from trim_decompose [of s] obtain ws1 ws2 where
    s: "s = ws1 @ trim s @ ws2" and f: "list_all isSpace ws1" and b: "list_all isSpace ws2"
    by blast
  have "labelRun (ws1 @ trim s @ ws2) = labelRun (trim s @ ws2)"
    using f by (intro labelRun_drop_front) (auto simp: list_all_iff space_not_digit)
  also have "\<dots> = labelRun (trim s)"
    using b by (intro labelRun_drop_back) (auto simp: list_all_iff space_not_digit)
  finally have "labelRun (ws1 @ trim s @ ws2) = labelRun (trim s)" .
  then show ?thesis by (simp only: s [symmetric])
qed

lemma tier1_direct:
  "(if trim s \<noteq> [] then matchDigits (trim s) else None) = labelRun s"
proof (cases "trim s = []")
  case True
  have "labelRun s = labelRun (trim s)" by (simp only: labelRun_trim)
  also have "\<dots> = None" using True by (simp add: labelRun_def)
  finally show ?thesis using True by simp
next
  case False
  then show ?thesis by (simp add: matchDigits_direct labelRun_trim)
qed

lemma ptAt_direct:
  "ptAt t =
     (let ds = takeWhile isDigit (drop 3 t)
      in if take 3 t = ''pt-'' \<and> ds \<noteq> [] then Some (take 5 ds) else None)"
  by (simp add: ptAt_def digitsThen_True Let_def)

lemma ptSuffix_search: "ptSuffix s = searchFirst ptAt s"
proof (induction s)
  case Nil
  then show ?case by (simp add: ptAt_def)
next
  case (Cons c s)
  then show ?case by (simp add: ptAt_direct Let_def)
qed

lemma ptAt_space: "ptAt (CHR '' '' # B) = None"
  by (simp add: ptAt_def)

lemma ptAt_join:
  assumes "t \<noteq> []"
  shows "ptAt (t @ CHR '' '' # B) = ptAt t"
proof -
  have nd: "\<not> isDigit (CHR '' '')" by (simp add: isDigit_def)
  show ?thesis
  proof (cases t)
    case Nil
    with assms show ?thesis by simp
  next
    case t1: (Cons a t1)
    show ?thesis
    proof (cases t1)
      case Nil
      with t1 show ?thesis by (simp add: ptAt_def)
    next
      case t2: (Cons b t2)
      show ?thesis
      proof (cases t2)
        case Nil
        with t1 t2 show ?thesis by (simp add: ptAt_def)
      next
        case (Cons c r)
        have "takeWhile isDigit (r @ CHR '' '' # B) = takeWhile isDigit r"
          using nd by (rule takeWhile_tail)
        with t1 t2 Cons show ?thesis by (simp add: ptAt_direct Let_def)
      qed
    qed
  qed
qed

lemma searchFirst_ptAt_join:
  "searchFirst ptAt (A @ CHR '' '' # B) =
     (case searchFirst ptAt A of Some ds \<Rightarrow> Some ds | None \<Rightarrow> searchFirst ptAt B)"
proof (induction A)
  case Nil
  have "ptAt [] = None" by (simp add: ptAt_def)
  then show ?case by (simp add: ptAt_space)
next
  case (Cons c A)
  have "ptAt ((c # A) @ CHR '' '' # B) = ptAt (c # A)" by (rule ptAt_join) simp
  then have "ptAt (c # A @ CHR '' '' # B) = ptAt (c # A)" by simp
  with Cons show ?case by (simp split: option.splits)
qed

lemma tier2_direct:
  "matchPt (A @ '' '' @ B) =
     (case ptSuffix A of Some ds \<Rightarrow> Some ds | None \<Rightarrow> ptSuffix B)"
  unfolding matchPt_def ptSuffix_search
  using searchFirst_ptAt_join [of A B] by simp

lemma imatch_Nil: "imatch pat [] = (pat = [])"
  by (auto simp: imatch_def)

lemma imatch_Cons:
  "imatch (p # ps) (c # cs) = (canonicalize c = canonicalize p \<and> imatch ps cs)"
  by (auto simp: imatch_def)

lemma canonicalize_space: "isSpace c \<Longrightarrow> canonicalize c = c"
  unfolding isSpace_def canonicalize_def by (elim disjE | simp)+

lemma canonicalize_digit: "isDigit c \<Longrightarrow> canonicalize c = c"
  unfolding isDigit_def canonicalize_def by (elim disjE | simp)+

lemma canonicalize_P: "canonicalize CHR ''P'' = CHR ''P''" "canonicalize CHR ''p'' = CHR ''P''"
  "canonicalize CHR ''<'' = CHR ''<''"
  by (simp_all add: canonicalize_def)

lemma not_space_P: "\<not> isSpace CHR ''P''" "\<not> isDigit CHR ''P''" "\<not> isDigit CHR ''<''"
  "\<not> isDigit CHR '')''"
  by (simp_all add: isSpace_def isDigit_def)

lemma imatch_Punkte_space: "isSpace c \<Longrightarrow> \<not> imatch ''Punkte'' (c # cs)"
  using not_space_P(1) by (auto simp: imatch_Cons canonicalize_space canonicalize_P)

lemma imatch_punkt_space: "isSpace c \<Longrightarrow> \<not> imatch ''punkt'' (c # cs)"
  using not_space_P(1) by (auto simp: imatch_Cons canonicalize_space canonicalize_P)

lemma imatch_Punkte_punkt: "imatch ''Punkte'' t \<Longrightarrow> imatch ''punkt'' t"
proof -
  assume a: "imatch ''Punkte'' t"
  then obtain c1 c2 c3 c4 c5 c6 r where t: "t = c1 # c2 # c3 # c4 # c5 # c6 # r"
    by (auto simp: imatch_def length_Suc_conv Suc_le_length_iff)
  from a show ?thesis unfolding t
    by (simp add: imatch_Cons imatch_def canonicalize_def)
qed

lemma canonicalize_letters:
  "(canonicalize c = canonicalize CHR ''p'') = (c = CHR ''p'' \<or> c = CHR ''P'')"
  "(canonicalize c = canonicalize CHR ''u'') = (c = CHR ''u'' \<or> c = CHR ''U'')"
  "(canonicalize c = canonicalize CHR ''n'') = (c = CHR ''n'' \<or> c = CHR ''N'')"
  "(canonicalize c = canonicalize CHR ''k'') = (c = CHR ''k'' \<or> c = CHR ''K'')"
  "(canonicalize c = canonicalize CHR ''t'') = (c = CHR ''t'' \<or> c = CHR ''T'')"
  "(canonicalize c = canonicalize CHR ''s'') = (c = CHR ''s'' \<or> c = CHR ''S'')"
  "(canonicalize c = canonicalize CHR ''a'') = (c = CHR ''a'' \<or> c = CHR ''A'')"
  "(canonicalize c = canonicalize CHR ''<'') = (c = CHR ''<'')"
  "(canonicalize c = canonicalize CHR ''/'') = (c = CHR ''/'')"
  "(canonicalize c = canonicalize CHR ''>'') = (c = CHR ''>'')"
  by (auto simp: canonicalize_def split: if_splits)

lemma imatch_empty: "imatch [] t"
  by (simp add: imatch_def)

lemma eitherCase_Nil: "eitherCase [] upper t"
  by (simp add: eitherCase_def)

lemma eitherCase_Cons:
  "eitherCase (l # ls) (u # us) (c # cs) = ((c = l \<or> c = u) \<and> eitherCase ls us cs)"
  "\<not> eitherCase (l # ls) (u # us) []"
  by (simp_all add: eitherCase_def)

lemma imatch_eitherCase:
  assumes "length lower = length upper"
    and "\<And>l u c. (l, u) \<in> set (zip lower upper) \<Longrightarrow>
           (canonicalize c = canonicalize l) = (c = l \<or> c = u)"
  shows "imatch lower t = eitherCase lower upper t"
  using assms
proof (induction lower upper arbitrary: t rule: list_induct2)
  case Nil
  then show ?case by (simp add: imatch_empty eitherCase_Nil)
next
  case (Cons l ls u us)
  have head: "(canonicalize c = canonicalize l) = (c = l \<or> c = u)" for c
    by (rule Cons.prems) simp
  have tail: "imatch ls t' = eitherCase ls us t'" for t'
    by (rule Cons.IH) (rule Cons.prems, simp)
  show ?case
  proof (cases t)
    case Nil
    then show ?thesis by (simp add: imatch_Nil eitherCase_Cons)
  next
    case (Cons c cs)
    then show ?thesis by (simp add: imatch_Cons eitherCase_Cons head tail)
  qed
qed

lemma imatch_punkt: "imatch ''punkt'' t = eitherCase ''punkt'' ''PUNKT'' t"
  by (rule imatch_eitherCase) (auto simp: canonicalize_letters)

lemma imatch_span: "imatch ''</span>'' t = eitherCase ''</span>'' ''</SPAN>'' t"
  by (rule imatch_eitherCase) (auto simp: canonicalize_letters)

lemma spacesThen_skip:
  assumes "\<And>c cs. isSpace c \<Longrightarrow> \<not> cont (c # cs)"
  shows "spacesThen cont r = cont (dropWhile isSpace r)"
  using assms by (induction r) auto

lemma markupTail_direct: "markupTail r = followsNumber r"
proof -
  have "spacesThen (imatch ''Punkte'') r = imatch ''Punkte'' (dropWhile isSpace r)"
    by (rule spacesThen_skip) (rule imatch_Punkte_space)
  moreover have "spacesThen (imatch ''punkt'') r = imatch ''punkt'' (dropWhile isSpace r)"
    by (rule spacesThen_skip) (rule imatch_punkt_space)
  ultimately have "markupTail r =
      (imatch ''punkt'' (dropWhile isSpace r) \<or> imatch ''</span>'' r \<or> take 1 r = '')'')"
    unfolding markupTail_def using imatch_Punkte_punkt by blast
  then show ?thesis by (simp only: followsNumber_def imatch_punkt imatch_span)
qed

lemma followsNumber_digit:
  assumes "isDigit d"
  shows "\<not> followsNumber (d # t)"
proof -
  from assms have ns: "\<not> isSpace d" using space_not_digit by blast
  have "\<not> eitherCase ''punkt'' ''PUNKT'' (d # t)"
    using assms by (auto simp: eitherCase_Cons isDigit_def)
  moreover have "\<not> eitherCase ''</span>'' ''</SPAN>'' (d # t)"
    using assms by (auto simp: eitherCase_Cons isDigit_def)
  moreover have "take 1 (d # t) \<noteq> '')''"
    using assms by (auto simp: isDigit_def)
  ultimately show ?thesis using ns by (simp add: followsNumber_def)
qed

lemma drop_takeWhile_head:
  "k < length (takeWhile P s) \<Longrightarrow> \<exists>d t. drop k s = d # t \<and> P d"
proof (induction s arbitrary: k)
  case Nil
  then show ?case by simp
next
  case (Cons c s)
  then show ?case by (cases k) (auto split: if_splits)
qed

lemma digitsThen_nobacktrack:
  assumes stop: "\<And>d t. isDigit d \<Longrightarrow> \<not> cont (d # t)"
  shows "digitsThen n cont s =
     (let ds = takeWhile isDigit s
      in if ds \<noteq> [] \<and> length ds \<le> n \<and> cont (drop (length ds) s) then Some ds else None)"
proof (induction n)
  case 0
  then show ?case by (simp add: Let_def)
next
  case (Suc n)
  let ?tw = "takeWhile isDigit s"
  let ?P = "Suc n \<le> length s \<and> list_all isDigit (take (Suc n) s) \<and> cont (drop (Suc n) s)"
  have unfold: "digitsThen (Suc n) cont s =
      (if ?P then Some (take (Suc n) s) else digitsThen n cont s)"
    by simp
  have ih: "digitsThen n cont s =
      (if ?tw \<noteq> [] \<and> length ?tw \<le> n \<and> cont (drop (length ?tw) s) then Some ?tw else None)"
    using Suc.IH by (simp only: Let_def)
  consider (longer) "Suc n < length ?tw" | (exact) "length ?tw = Suc n" | (shorter) "length ?tw \<le> n"
    by linarith
  then have "digitsThen (Suc n) cont s =
      (if ?tw \<noteq> [] \<and> length ?tw \<le> Suc n \<and> cont (drop (length ?tw) s) then Some ?tw else None)"
  proof cases
    case longer
    from drop_takeWhile_head [OF longer] stop have "\<not> cont (drop (Suc n) s)" by auto
    then have "\<not> ?P" by blast
    then have "digitsThen (Suc n) cont s = digitsThen n cont s"
      unfolding unfold by (rule if_not_P)
    with longer show ?thesis by (simp add: ih)
  next
    case exact
    then have le: "Suc n \<le> length ?tw" by simp
    then have a: "Suc n \<le> length s \<and> list_all isDigit (take (Suc n) s)"
      using takeWhile_length_ge [of "Suc n" isDigit s] by blast
    have eq: "take (Suc n) s = ?tw"
      using take_takeWhile_full [OF le] exact by simp
    have ne: "?tw \<noteq> []" using exact by auto
    show ?thesis
    proof (cases "cont (drop (Suc n) s)")
      case True
      with a have ?P by blast
      then have "digitsThen (Suc n) cont s = Some (take (Suc n) s)"
        unfolding unfold by (rule if_P)
      with True ne exact show ?thesis by (simp add: eq)
    next
      case False
      then have "\<not> ?P" by blast
      then have "digitsThen (Suc n) cont s = digitsThen n cont s"
        unfolding unfold by (rule if_not_P)
      with False exact show ?thesis by (simp add: ih)
    qed
  next
    case shorter
    then have "\<not> Suc n \<le> length ?tw" by simp
    then have "\<not> (Suc n \<le> length s \<and> list_all isDigit (take (Suc n) s))"
      using takeWhile_length_ge [of "Suc n" isDigit s] by blast
    then have "\<not> ?P" by blast
    then have "digitsThen (Suc n) cont s = digitsThen n cont s"
      unfolding unfold by (rule if_not_P)
    with shorter show ?thesis by (simp add: ih)
  qed
  then show ?case by (simp only: Let_def)
qed

lemma markupAt_direct:
  "markupAt (c # r) =
     (let ds = takeWhile isDigit r
      in if (c = CHR ''('' \<or> isSpace c) \<and> ds \<noteq> [] \<and> length ds \<le> 5 \<and>
            followsNumber (drop (length ds) r)
         then Some ds else None)"
proof -
  have "digitsThen 5 followsNumber r =
     (let ds = takeWhile isDigit r
      in if ds \<noteq> [] \<and> length ds \<le> 5 \<and> followsNumber (drop (length ds) r) then Some ds else None)"
    by (rule digitsThen_nobacktrack) (rule followsNumber_digit)
  moreover have "markupTail = followsNumber" by (rule ext) (rule markupTail_direct)
  ultimately show ?thesis by (simp add: markupAt_def Let_def)
qed

lemma tier3_direct: "matchMarkup s = markupNumber s"
proof (induction s)
  case Nil
  then show ?case by (simp add: matchMarkup_def markupAt_def)
next
  case (Cons c s)
  then show ?case unfolding matchMarkup_def
    by (auto simp: markupAt_direct Let_def)
qed


lemma digitVal_digitOf:
  assumes "isDigit c"
  shows "digitVal c = digitOf c"
proof -
  from assms have "c \<in> set ''0123456789''" by (simp only: isDigit_def)
  then consider "c = CHR ''0''" | "c = CHR ''1''" | "c = CHR ''2''" | "c = CHR ''3''"
    | "c = CHR ''4''" | "c = CHR ''5''" | "c = CHR ''6''" | "c = CHR ''7''"
    | "c = CHR ''8''" | "c = CHR ''9''"
    by auto
  then show ?thesis by cases (simp_all add: digitVal_def digitOf_def)
qed

lemma decimal_snoc: "decimal (ds @ [c]) = 10 * decimal ds + digitOf c"
  by (induction ds) (simp_all add: algebra_simps)

lemma parseInt_decimal: "list_all isDigit ds \<Longrightarrow> parseInt ds = decimal ds"
proof (induction ds rule: rev_induct)
  case Nil
  then show ?case by (simp add: parseInt_def)
next
  case (snoc c ds)
  then show ?case by (simp add: parseInt_snoc decimal_snoc digitVal_digitOf)
qed

lemma labelRun_digits: "labelRun s = Some ds \<Longrightarrow> list_all isDigit ds"
  using matchDigits_shape [of s ds] by (simp add: matchDigits_direct)

lemma ptSuffix_digits: "ptSuffix s = Some ds \<Longrightarrow> list_all isDigit ds"
  using matchPt_shape [of s ds] by (simp add: matchPt_def ptSuffix_search)

lemma markupNumber_digits: "markupNumber s = Some ds \<Longrightarrow> list_all isDigit ds"
  using matchMarkup_shape [of s ds] by (simp add: tier3_direct)

text \<open>
  C7, as the claim states it, fails in the second and in the third tier. The scan of the
  markup accepts one closing tag only, \<open></span>\<close>: a number that stands after a space
  and before another closing tag, as in \<open><b> 12</b>\<close>, is not found, and with nothing
  else to find the result is 0. The class tier does not look for a class token: it takes
  the characters \<open>pt-\<close> wherever they stand, so that the class \<open>script-7\<close> yields 7
  although it has no token \<open>pt-7\<close> and the markup holds \<open>(15 Punkte)\<close>.
\<close>

theorem fallback_order_counterexample:
  "parsePointsFromLi
     \<lparr>punkteText = [], liClass = None, divClass = None, liHtml = Some ''<b> 12</b>'',
      anchor = None\<rparr> = 0 \<and>
   parsePointsFromLi
     \<lparr>punkteText = [], liClass = Some ''script-7'', divClass = None,
      liHtml = Some ''(15 Punkte)'', anchor = None\<rparr> = 7"
  by code_simp

text \<open>
  C7, amended. The points extracted for an item node are \<open>tieredPoints\<close>: the tiers are
  tried in a fixed order and the first that yields digits gives the result, as their
  decimal value. First the score label: its first run of digits, cut after five, also when
  the class attributes hold a \<open>pt-\<close> number. Otherwise the class of the item and then
  the class of its first \<open>div\<close>: the digits, cut after five, after the leftmost \<open>pt-\<close>
  that is followed by a digit, anywhere in the attribute. Otherwise the markup: the leftmost
  whole run of one to five digits that stands right after \<open>(\<close> or a space and right
  before \<open>punkt\<close> in either case (after any spaces), \<open></span>\<close> in either case, or
  \<open>)\<close>. Otherwise 0.
\<close>

theorem fallback_order: "parsePointsFromLi li = tieredPoints li"
proof -
  let ?A = "case liClass li of None \<Rightarrow> [] | Some s \<Rightarrow> s"
  let ?B = "case divClass li of None \<Rightarrow> [] | Some s \<Rightarrow> s"
  let ?M = "case liHtml li of None \<Rightarrow> [] | Some s \<Rightarrow> s"
  let ?t2 = "case ptSuffix ?A of Some ds \<Rightarrow> Some ds | None \<Rightarrow> ptSuffix ?B"
  have code: "parsePointsFromLi li =
      (case labelRun (punkteText li) of
         Some m \<Rightarrow> parseInt m
       | None \<Rightarrow>
           (case ?t2 of
              Some m2 \<Rightarrow> parseInt m2
            | None \<Rightarrow> (case markupNumber ?M of Some m3 \<Rightarrow> parseInt m3 | None \<Rightarrow> 0)))"
    unfolding parsePointsFromLi_def Let_def tier1_direct tier2_direct tier3_direct orEmpty_def
    by (rule refl)
  have d2: "list_all isDigit ds" if "?t2 = Some ds" for ds
    using that by (auto split: option.splits dest: ptSuffix_digits)
  show ?thesis
  proof (cases "labelRun (punkteText li)")
    case (Some ds)
    then have "parseInt ds = decimal ds" by (intro parseInt_decimal labelRun_digits)
    then show ?thesis by (simp only: code tieredPoints_def Some option.case)
  next
    case l: None
    show ?thesis
    proof (cases ?t2)
      case (Some ds)
      then have "parseInt ds = decimal ds" by (intro parseInt_decimal d2)
      then show ?thesis by (simp only: code tieredPoints_def l Some option.case)
    next
      case c: None
      show ?thesis
      proof (cases "markupNumber ?M")
        case None
        then show ?thesis by (simp only: code tieredPoints_def l c option.case)
      next
        case (Some ds)
        then have "parseInt ds = decimal ds" by (intro parseInt_decimal markupNumber_digits)
        then show ?thesis by (simp only: code tieredPoints_def l c Some option.case)
      qed
    qed
  qed
qed

text \<open>
  One item node for each way through the tiers: the label wins over a class number; the
  class of the item wins over the class of its child and over the markup; the class of the
  child; the markup before a points word and before \<open></SPAN>\<close>; a label of six digits;
  and nothing to find.
\<close>

theorem fallback_order_witness:
  "parsePointsFromLi
     \<lparr>punkteText = '' 12 Punkte '', liClass = Some ''item pt-99'', divClass = None,
      liHtml = Some ''(5)'', anchor = None\<rparr> = 12 \<and>
   parsePointsFromLi
     \<lparr>punkteText = [], liClass = Some ''item pt-42'', divClass = Some ''pt-7'',
      liHtml = Some ''(15 Punkte)'', anchor = None\<rparr> = 42 \<and>
   parsePointsFromLi
     \<lparr>punkteText = [], liClass = None, divClass = Some ''punkte pt-7'',
      liHtml = Some ''(15 Punkte)'', anchor = None\<rparr> = 7 \<and>
   parsePointsFromLi
     \<lparr>punkteText = [], liClass = None, divClass = None,
      liHtml = Some ''<a>Text</a> (15 Punkte)'', anchor = None\<rparr> = 15 \<and>
   parsePointsFromLi
     \<lparr>punkteText = [], liClass = None, divClass = None,
      liHtml = Some ''<span> 8</SPAN>'', anchor = None\<rparr> = 8 \<and>
   parsePointsFromLi
     \<lparr>punkteText = ''123456'', liClass = None, divClass = None,
      liHtml = None, anchor = None\<rparr> = 12345 \<and>
   parsePointsFromLi
     \<lparr>punkteText = ''keine'', liClass = Some ''item'', divClass = None,
      liHtml = Some ''<a>Text</a>'', anchor = None\<rparr> = 0"
  unfolding fallback_order by code_simp

end
